theory Spec2Isabelle
  imports Main "HOL-Library.Word" "HOL-Library.Product_Lexorder"
begin

section \<open>Data model\<close>

subsection \<open>Hybrid-logical clock\<close>

text \<open>
  Modelled from the spec: package \<^verbatim>\<open>internal/util/hlc\<close> is not among the source files.
  The spec describes the type as an immutable pair \<open>(nanos, logical)\<close> with lexicographic
  ordering and the sentinel \<open>Zero = (0, 0)\<close>. \<^verbatim>\<open>hlc.Compare\<close> is used by the source
  through the sign of its result only.
\<close>

record hlc =
  Nanos :: int
  Logical :: int

definition hlc_New :: "int \<Rightarrow> int \<Rightarrow> hlc" where
  "hlc_New n l = \<lparr>Nanos = n, Logical = l\<rparr>"

definition hlc_Zero :: hlc where
  "hlc_Zero = hlc_New 0 0"

definition hlc_Compare :: "hlc \<Rightarrow> hlc \<Rightarrow> int" where
  "hlc_Compare a b =
     (if Nanos a < Nanos b then - 1
      else if Nanos b < Nanos a then 1
      else if Logical a < Logical b then - 1
      else if Logical b < Logical a then 1
      else 0)"

text \<open>The pair that the tuple order of the SQL queries and of \<open>hlc_Compare\<close> looks at.\<close>

definition hlc_tuple :: "hlc \<Rightarrow> int \<times> int" where
  "hlc_tuple t = (Nanos t, Logical t)"

subsection \<open>Mutations (\<^verbatim>\<open>internal/types/types.go\<close>)\<close>

text \<open>
  \<^verbatim>\<open>json.RawMessage\<close> is a byte slice; a \<open>string\<close> is a list of 8-bit characters. A nil
  slice and an empty slice are both the empty list: the source only looks at \<^verbatim>\<open>len\<close>
  and at the contents. \<open>Meta\<close> is kept as a list of key/value pairs.
\<close>

type_synonym bytes = string

record Mutation =
  Data :: bytes
  Key :: bytes
  Time :: hlc
  Meta :: "(string \<times> string) list"

definition nullBytes :: bytes where
  "nullBytes = ''null''"

text \<open>\<^verbatim>\<open>bytes.Equal\<close>: same length and the same bytes at every position.\<close>

fun bytes_Equal :: "bytes \<Rightarrow> bytes \<Rightarrow> bool" where
  "bytes_Equal [] [] = True"
| "bytes_Equal (a # as) (b # bs) = (a = b \<and> bytes_Equal as bs)"
| "bytes_Equal _ _ = False"

definition IsDelete :: "Mutation \<Rightarrow> bool" where
  "IsDelete m = (length (Data m) = 0 \<or> bytes_Equal (Data m) nullBytes)"


subsection \<open>De-duplication of a batch (package \<^verbatim>\<open>msort\<close>)\<close>

text \<open>
  \<^verbatim>\<open>UniqueByKey\<close> works in place on the slice \<open>x\<close>: \<open>src\<close> runs from the last index down to
  \<open>0\<close>, \<open>dest\<close> is the start of the compacted tail, and \<open>seenIdx\<close> maps a key to the index
  of the tail that holds it. The first argument of the loop is \<open>src + 1\<close>, so that the loop
  ends at \<open>0\<close>. An index outside the slice and an empty key are the two panics of the Go
  code; both are results here.
\<close>

datatype panic = EmptyMutationKey | IndexOutOfRange

fun UniqueByKey_loop ::
  "nat \<Rightarrow> Mutation list \<Rightarrow> (bytes \<rightharpoonup> nat) \<Rightarrow> nat \<Rightarrow> panic + (Mutation list \<times> nat)" where
  "UniqueByKey_loop 0 x seenIdx dest = Inr (x, dest)"
| "UniqueByKey_loop (Suc src) x seenIdx dest =
     (if \<not> src < length x then Inl IndexOutOfRange
      else if length (Key (x ! src)) = 0 then Inl EmptyMutationKey
      else (case seenIdx (Key (x ! src)) of
          Some curIdx \<Rightarrow>
            if \<not> curIdx < length x then Inl IndexOutOfRange
            else if 0 < hlc_Compare (Time (x ! src)) (Time (x ! curIdx))
              then UniqueByKey_loop src (x[curIdx := x ! src]) seenIdx dest
              else UniqueByKey_loop src x seenIdx dest
        | None \<Rightarrow>
            if dest = 0 \<or> \<not> dest - 1 < length x then Inl IndexOutOfRange
            else UniqueByKey_loop src (x[dest - 1 := x ! src])
                   (seenIdx(Key (x ! src) \<mapsto> dest - 1)) (dest - 1)))"

definition UniqueByKey :: "Mutation list \<Rightarrow> panic + Mutation list" where
  "UniqueByKey x =
     (case UniqueByKey_loop (length x) x Map.empty (length x) of
        Inl p \<Rightarrow> Inl p
      | Inr (x', dest) \<Rightarrow> if length x' < dest then Inl IndexOutOfRange else Inr (drop dest x'))"

section \<open>The resolved-timestamp store\<close>

subsection \<open>Errors\<close>

text \<open>
  Go errors as values. \<open>errNoWork\<close> is the sentinel of the source, \<open>errNoTables\<close> the
  error that \<^verbatim>\<open>process\<close> builds with \<^verbatim>\<open>errors.Errorf\<close> for an empty schema, \<open>ctxErr\<close> the
  error of a finished context (\<^verbatim>\<open>ctx.Err()\<close>, \<^verbatim>\<open>context.Canceled\<close>), and \<open>Failure\<close> any
  other error, named by its message. \<^verbatim>\<open>errors.WithStack\<close> only attaches a stack trace
  and is the identity here.
\<close>

datatype error = errNoWork | errNoTables string | ctxErr | Failure string

subsection \<open>The meta-table and its three statements\<close>

text \<open>
  A row of the table declared by the constant \<^verbatim>\<open>schema\<close>; \<open>target_applied_at\<close> is the only
  nullable column. The table is the list of its rows in insertion order.
\<close>

record resolved_row =
  target_schema :: string
  source_nanos :: int
  source_logical :: int
  target_applied_at :: "nat option"

definition row_tuple :: "resolved_row \<Rightarrow> int \<times> int" where
  "row_tuple r = (source_nanos r, source_logical r)"

text \<open>
  \<^verbatim>\<open>markTemplate\<close>. \<open>not_before\<close> is the common table expression of that name: the rows of
  the schema, ordered by \<open>(source_nanos, source_logical)\<close> descending, limited to one.
  The scalar subquery over an empty \<open>not_before\<close> is NULL, the comparison with it is
  unknown, and the \<open>count(*) = 0\<close> disjunct is what admits the row then.
\<close>

definition not_before :: "resolved_row list \<Rightarrow> string \<Rightarrow> (int \<times> int) list" where
  "not_before tbl s =
     map row_tuple (take 1 (rev (sort_key row_tuple (filter (\<lambda>r. target_schema r = s) tbl))))"

definition to_insert :: "resolved_row list \<Rightarrow> string \<Rightarrow> int \<Rightarrow> int \<Rightarrow> resolved_row list" where
  "to_insert tbl s n l =
     (if length (not_before tbl s) = 0
         \<or> (case not_before tbl s of [] \<Rightarrow> False | t # _ \<Rightarrow> t < (n, l))
      then [\<lparr>target_schema = s, source_nanos = n, source_logical = l, target_applied_at = None\<rparr>]
      else [])"

text \<open>
  \<^verbatim>\<open>INSERT INTO ... SELECT * FROM to_insert\<close>: a row whose primary key is already in the
  table makes the statement fail; otherwise the rows are added and counted.
\<close>

definition pk :: "resolved_row \<Rightarrow> string \<times> int \<times> int" where
  "pk r = (target_schema r, source_nanos r, source_logical r)"

definition sql_insert :: "resolved_row list \<Rightarrow> resolved_row list \<Rightarrow> error + (nat \<times> resolved_row list)" where
  "sql_insert tbl new =
     (if \<exists>r \<in> set new. pk r \<in> pk ` set tbl then Inl (Failure ''duplicate key'')
      else Inr (length new, tbl @ new))"

text \<open>
  \<^verbatim>\<open>pool.Exec\<close> of the mark statement. \<open>fault\<close> is a failure of the call that is not the
  statement's own (the connection, the context), by its message: the table is untouched
  then. The Go code formats the two numbers with \<^verbatim>\<open>%d\<close> and the statement casts them
  back to integers.
\<close>

definition exec_mark ::
  "string option \<Rightarrow> resolved_row list \<Rightarrow> string \<Rightarrow> int \<Rightarrow> int \<Rightarrow> error + (nat \<times> resolved_row list)" where
  "exec_mark fault tbl s n l =
     (case fault of Some msg \<Rightarrow> Inl (Failure msg) | None \<Rightarrow> sql_insert tbl (to_insert tbl s n l))"

text \<open>
  The part of the resolver that \<^verbatim>\<open>Mark\<close> touches: the meta-table and the variable
  \<open>marked\<close> that wakes the reader.
\<close>

record store =
  rows :: "resolved_row list"
  marked :: hlc

definition Mark :: "string option \<Rightarrow> string \<Rightarrow> hlc \<Rightarrow> store \<Rightarrow> error option \<times> store" where
  "Mark fault target ts st =
     (case exec_mark fault (rows st) target (Nanos ts) (Logical ts) of
        Inl err \<Rightarrow> (Some err, st)
      | Inr (affected, tbl) \<Rightarrow>
          if affected = 0 then (None, st\<lparr>rows := tbl\<rparr>)
          else (None, st\<lparr>rows := tbl, marked := ts\<rparr>))"

text \<open>A run of \<^verbatim>\<open>Mark\<close> calls, each with its own outcome of the database call.\<close>

fun Marks :: "(string option \<times> string \<times> hlc) list \<Rightarrow> store \<Rightarrow> store" where
  "Marks [] st = st"
| "Marks ((fault, target, ts) # cs) st = Marks cs (snd (Mark fault target ts st))"

text \<open>The checkpoints of a schema, in the order in which they were stored.\<close>

definition checkpoints :: "string \<Rightarrow> resolved_row list \<Rightarrow> (int \<times> int) list" where
  "checkpoints s tbl = map row_tuple (filter (\<lambda>r. target_schema r = s) tbl)"

text \<open>
  \<^verbatim>\<open>selectTimestampTemplate\<close> and \<^verbatim>\<open>selectTimestamp\<close>. \<^verbatim>\<open>Scan\<close> on an empty result is
  \<^verbatim>\<open>pgx.ErrNoRows\<close>, which the function turns into the sentinel; every other error of
  the query (\<open>fault\<close>, by its message) is returned as it is.
\<close>

definition selectTimestamp_query :: "resolved_row list \<Rightarrow> string \<Rightarrow> int \<Rightarrow> int \<Rightarrow> resolved_row list" where
  "selectTimestamp_query tbl s n l =
     take 1 (sort_key row_tuple
       (filter (\<lambda>r. target_schema r = s \<and> (n, l) \<le> row_tuple r \<and> target_applied_at r = None) tbl))"

definition selectTimestamp ::
  "string option \<Rightarrow> resolved_row list \<Rightarrow> string \<Rightarrow> hlc \<Rightarrow> hlc \<times> error option" where
  "selectTimestamp fault tbl target after =
     (case fault of
        Some msg \<Rightarrow> (hlc_Zero, Some (Failure msg))
      | None \<Rightarrow>
         (case selectTimestamp_query tbl target (Nanos after) (Logical after) of
            [] \<Rightarrow> (hlc_Zero, Some errNoWork)
          | r # _ \<Rightarrow> (hlc_New (source_nanos r) (source_logical r), None)))"

text \<open>The row that the mark statement inserts for a timestamp.\<close>

definition mark_row :: "string \<Rightarrow> hlc \<Rightarrow> resolved_row" where
  "mark_row s ts =
     \<lparr>target_schema = s, source_nanos = Nanos ts, source_logical = Logical ts, target_applied_at = None\<rparr>"

text \<open>The rows that \<^verbatim>\<open>selectTimestamp\<close> chooses from, as tuples.\<close>

definition unapplied_from :: "resolved_row list \<Rightarrow> string \<Rightarrow> hlc \<Rightarrow> (int \<times> int) set" where
  "unapplied_from tbl s after =
     row_tuple ` {r \<in> set tbl. target_schema r = s \<and> hlc_tuple after \<le> row_tuple r \<and> target_applied_at r = None}"

section \<open>The resolver loop\<close>

subsection \<open>Stamps, cursors and configuration\<close>

text \<open>
  Modelled from the spec: the type \<^verbatim>\<open>resolvedStamp\<close> and its methods are not among the
  source files. The spec lists its fields, and says of \<^verbatim>\<open>NewProgress\<close> that it takes a
  proposed stamp to a proposed stamp, updating the offsets. \<^verbatim>\<open>NewCommitted\<close> and
  \<^verbatim>\<open>NewProposed\<close> can fail, and the spec does not say when: they are parameters of the
  model (record \<open>deps\<close> below).
\<close>

record resolvedStamp =
  CommittedTime :: hlc
  ProposedTime :: hlc
  Backfill :: bool
  OffsetKey :: bytes
  OffsetTable :: string
  OffsetTime :: hlc

text \<open>\<^verbatim>\<open>types.SelectManyCursor\<close>; the fields that share a name with the stamp's carry a \<open>c\<close>.\<close>

record SelectManyCursor =
  Start :: hlc
  End :: hlc
  Targets :: "string list list"
  Limit :: int
  cBackfill :: bool
  cOffsetKey :: bytes
  cOffsetTable :: string
  cOffsetTime :: hlc

definition NewProgress :: "resolvedStamp \<Rightarrow> SelectManyCursor \<Rightarrow> resolvedStamp" where
  "NewProgress rs cursor =
     rs\<lparr>OffsetKey := cOffsetKey cursor, OffsetTable := cOffsetTable cursor,
        OffsetTime := cOffsetTime cursor\<rparr>"

text \<open>The fields of \<^verbatim>\<open>Config\<close> that the resolver reads; durations in nanoseconds.\<close>

record Config =
  BackupPolling :: int
  ApplyTimeout :: int
  SelectBatchSize :: int
  IdealFlushBatchSize :: int
  FlushEveryTimestamp :: bool
  RetireOffset :: int

text \<open>
  What the resolver holds besides the database: its configuration, the name of the target
  schema, and the watcher's snapshot of the table order.
\<close>

record resolver =
  cfg :: Config
  target :: string
  Order :: "string list list"

text \<open>
  Code of other packages that the loop calls and that is not among the source files:
  the two stamp transitions that can fail, and \<^verbatim>\<open>script.SourceName\<close>.
\<close>

record deps =
  NewCommitted :: "resolvedStamp \<Rightarrow> error + resolvedStamp"
  NewProposed :: "resolvedStamp \<Rightarrow> hlc \<Rightarrow> error + resolvedStamp"
  SourceName :: "string \<Rightarrow> string"

text \<open>
  Modelled from the spec: \<^verbatim>\<open>script.AddMeta\<close> is not among the source files. The spec calls
  \<open>meta\<close> optional key/value annotations attached by the pipeline and ignored by the core:
  the call sets the annotation of the given source name and leaves key, data and time as
  they are.
\<close>

definition AddMeta :: "string \<Rightarrow> string \<Rightarrow> Mutation \<Rightarrow> Mutation" where
  "AddMeta source tbl mut = mut\<lparr>Meta := (source, tbl) # filter (\<lambda>p. fst p \<noteq> source) (Meta mut)\<rparr>"

subsection \<open>The buffer of mutations per table\<close>

text \<open>
  Modelled from the spec: \<^verbatim>\<open>ident.TableMap\<close> is not among the source files. The spec has
  the processor accumulate the mutations into a per-table buffer whose zero-length entries
  a flush skips. The loop uses three operations: \<^verbatim>\<open>GetZero\<close> gives the entry of a table,
  the empty slice when there is none; \<^verbatim>\<open>Put\<close> replaces the entry; \<^verbatim>\<open>Range\<close> visits every
  entry. The reset after an interim flush puts \<^verbatim>\<open>muts[:0]\<close> for every entry.
\<close>

type_synonym TableMap = "(string \<times> Mutation list) list"

definition GetZero :: "TableMap \<Rightarrow> string \<Rightarrow> Mutation list" where
  "GetZero m tbl = (case map_of m tbl of None \<Rightarrow> [] | Some muts \<Rightarrow> muts)"

definition Put :: "TableMap \<Rightarrow> string \<Rightarrow> Mutation list \<Rightarrow> TableMap" where
  "Put m tbl muts = (tbl, muts) # filter (\<lambda>p. fst p \<noteq> tbl) m"

definition reset :: "TableMap \<Rightarrow> TableMap" where
  "reset m = foldl (\<lambda>acc (tbl, muts). Put acc tbl (take 0 muts)) m m"

subsection \<open>The outside world of \<^verbatim>\<open>process\<close>\<close>

text \<open>
  The calls that \<^verbatim>\<open>process\<close> makes on \<^verbatim>\<open>logical.Events\<close>, on the batch and on the
  resolved store (\<^verbatim>\<open>Record\<close>). Their implementations are outside the resolver; the model
  records each call with its outcome, in order.
\<close>

datatype call =
    OnBegin
  | OnData string string "Mutation list"
  | OnCommit
  | OnRollback
  | Record hlc
  | SetConsistentPoint resolvedStamp

text \<open>
  Modelled from the spec: the implementation of \<^verbatim>\<open>Events.SetConsistentPoint\<close> is not among
  the source files; the spec says that it persists the resumption cursor. The world keeps
  that cursor in \<open>point\<close>: a successful call replaces it, a failed call and every other
  call leave it.

  \<open>sched\<close> is the outcome of each call to come (\<open>None\<close> is success); when it runs out,
  calls succeed. For \<^verbatim>\<open>OnCommit\<close> the outcome is what the \<^verbatim>\<open>select\<close> of the flush
  receives: the value of the channel, or the error of the context when that is done first.
\<close>

record world =
  trace :: "(call \<times> error option) list"
  point :: resolvedStamp
  sched :: "error option list"

definition invoke :: "call \<Rightarrow> world \<Rightarrow> error option \<times> world" where
  "invoke c w =
     (let r = (case sched w of [] \<Rightarrow> None | out # _ \<Rightarrow> out)
      in (r, w\<lparr>trace := trace w @ [(c, r)],
               point := (case c of
                           SetConsistentPoint s \<Rightarrow> (if r = None then s else point w)
                         | _ \<Rightarrow> point w),
               sched := tl (sched w)\<rparr>))"

subsection \<open>The flush closure\<close>

text \<open>The two nested \<^verbatim>\<open>for\<close> loops over the table order.\<close>

fun flush_tables :: "string \<Rightarrow> string list \<Rightarrow> TableMap \<Rightarrow> world \<Rightarrow> error option \<times> world" where
  "flush_tables source [] toApply w = (None, w)"
| "flush_tables source (tbl # tables) toApply w =
     (if length (GetZero toApply tbl) = 0 then flush_tables source tables toApply w
      else (case invoke (OnData source tbl (GetZero toApply tbl)) w of
              (Some err, w') \<Rightarrow> (Some err, w')
            | (None, w') \<Rightarrow> flush_tables source tables toApply w'))"

fun flush_groups :: "string \<Rightarrow> string list list \<Rightarrow> TableMap \<Rightarrow> world \<Rightarrow> error option \<times> world" where
  "flush_groups source [] toApply w = (None, w)"
| "flush_groups source (tables # targets) toApply w =
     (case flush_tables source tables toApply w of
        (Some err, w') \<Rightarrow> (Some err, w')
      | (None, w') \<Rightarrow> flush_groups source targets toApply w')"

text \<open>
  The closure from the first loop to its last \<^verbatim>\<open>return\<close>, that is, between
  \<^verbatim>\<open>OnBegin\<close> and the deferred \<^verbatim>\<open>OnRollback\<close>. The result is the error, or the new value
  of the captured variable \<open>rs\<close>.
\<close>

definition flush_body ::
  "deps \<Rightarrow> string \<Rightarrow> string list list \<Rightarrow> SelectManyCursor \<Rightarrow> resolvedStamp \<Rightarrow> TableMap \<Rightarrow> bool
     \<Rightarrow> world \<Rightarrow> (error + resolvedStamp) \<times> world" where
  "flush_body D source targets cursor rs toApply final w =
     (case flush_groups source targets toApply w of
        (Some err, w1) \<Rightarrow> (Inl err, w1)
      | (None, w1) \<Rightarrow>
         (case invoke OnCommit w1 of
            (Some err, w2) \<Rightarrow> (Inl err, w2)
          | (None, w2) \<Rightarrow>
             (case (if final
                    then (case NewCommitted D rs of
                            Inl err \<Rightarrow> (Inl err, w2)
                          | Inr rs' \<Rightarrow>
                             (case invoke (Record (CommittedTime rs')) w2 of
                                (Some err, w3) \<Rightarrow> (Inl err, w3)
                              | (None, w3) \<Rightarrow> (Inr rs', w3)))
                    else (Inr (NewProgress rs cursor), w2)) of
                (Inl err, w3) \<Rightarrow> (Inl err, w3)
              | (Inr rs', w3) \<Rightarrow>
                 (case invoke (SetConsistentPoint rs') w3 of
                    (Some err, w4) \<Rightarrow> (Inl err, w4)
                  | (None, w4) \<Rightarrow> (Inr rs', w4)))))"

definition flush ::
  "deps \<Rightarrow> string \<Rightarrow> string list list \<Rightarrow> SelectManyCursor \<Rightarrow> resolvedStamp \<Rightarrow> TableMap \<Rightarrow> bool
     \<Rightarrow> world \<Rightarrow> (error + resolvedStamp) \<times> world" where
  "flush D source targets cursor rs toApply final w =
     (case invoke OnBegin w of
        (Some err, w1) \<Rightarrow> (Inl err, w1)
      | (None, w1) \<Rightarrow>
         (case flush_body D source targets cursor rs toApply final w1 of
            (res, w2) \<Rightarrow> (res, snd (invoke OnRollback w2))))"

subsection \<open>The callback of \<^verbatim>\<open>SelectMany\<close> and \<^verbatim>\<open>process\<close>\<close>

text \<open>The variables that the callback shares with \<^verbatim>\<open>process\<close>.\<close>

record loop_state =
  epoch :: hlc
  flushCounter :: int
  toApply :: TableMap
  total :: int
  rs :: resolvedStamp

definition needsFlush :: "Config \<Rightarrow> loop_state \<Rightarrow> Mutation \<Rightarrow> bool" where
  "needsFlush c st mut =
     (if Backfill (rs st) then IdealFlushBatchSize c \<le> flushCounter st
      else if FlushEveryTimestamp c
        then epoch st \<noteq> hlc_Zero \<and> 0 < hlc_Compare (Time mut) (epoch st)
      else IdealFlushBatchSize c \<le> flushCounter st \<and> 0 < hlc_Compare (Time mut) (epoch st))"

text \<open>
  \<open>cursor\<close> is the cursor as the stager has left it when it makes this call: the stager
  writes the offsets into the cursor that \<^verbatim>\<open>process\<close> gave it.
\<close>

definition callback ::
  "deps \<Rightarrow> resolver \<Rightarrow> SelectManyCursor \<Rightarrow> string \<Rightarrow> Mutation \<Rightarrow> loop_state \<Rightarrow> world
     \<Rightarrow> (error + loop_state) \<times> world" where
  "callback D r cursor tbl mut st w =
     (case (if needsFlush (cfg r) st mut
            then (case flush D (SourceName D (target r)) (Order r) cursor (rs st) (toApply st) False w of
                    (Inl err, w') \<Rightarrow> (Inl err, w')
                  | (Inr rs', w') \<Rightarrow>
                      (Inr (st\<lparr>rs := rs', total := total st + flushCounter st, flushCounter := 0,
                               toApply := reset (toApply st)\<rparr>), w'))
            else (Inr st, w)) of
        (Inl err, w') \<Rightarrow> (Inl err, w')
      | (Inr st', w') \<Rightarrow>
          (Inr (st'\<lparr>flushCounter := flushCounter st' + 1,
                    toApply := Put (toApply st') tbl (GetZero (toApply st') tbl @ [AddMeta ''cdc'' tbl mut]),
                    epoch := Time (AddMeta ''cdc'' tbl mut)\<rparr>), w'))"

text \<open>
  Modelled from the spec: \<^verbatim>\<open>Stagers.SelectMany\<close> is an interface method whose
  implementation is not among the source files. The spec says that it streams the staged
  mutations of the range, invoking the callback with each in order, and that it updates
  the offsets of the cursor to the last row it emitted. What it emits is \<open>items\<close>, each
  with the offsets \<open>(key, table, time)\<close> that the cursor holds when the callback runs; an
  error of the callback ends the scan and is its result; \<open>sm_err\<close> is a failure of the
  stager itself after the last item.
\<close>

type_synonym item = "(bytes \<times> string \<times> hlc) \<times> string \<times> Mutation"

definition at_offsets :: "SelectManyCursor \<Rightarrow> bytes \<times> string \<times> hlc \<Rightarrow> SelectManyCursor" where
  "at_offsets cursor off =
     (case off of (k, tbl, t) \<Rightarrow> cursor\<lparr>cOffsetKey := k, cOffsetTable := tbl, cOffsetTime := t\<rparr>)"

fun SelectMany ::
  "(SelectManyCursor \<Rightarrow> string \<Rightarrow> Mutation \<Rightarrow> loop_state \<Rightarrow> world \<Rightarrow> (error + loop_state) \<times> world)
     \<Rightarrow> SelectManyCursor \<Rightarrow> item list \<Rightarrow> error option \<Rightarrow> loop_state \<Rightarrow> world
     \<Rightarrow> (error + loop_state) \<times> world" where
  "SelectMany fn cursor [] sm_err st w = (case sm_err of Some err \<Rightarrow> (Inl err, w) | None \<Rightarrow> (Inr st, w))"
| "SelectMany fn cursor ((off, tbl, mut) # items) sm_err st w =
     (case fn (at_offsets cursor off) tbl mut st w of
        (Inl err, w') \<Rightarrow> (Inl err, w')
      | (Inr st', w') \<Rightarrow> SelectMany fn cursor items sm_err st' w')"

text \<open>
  \<^verbatim>\<open>process\<close>. The cursor is one object that the stager writes to; the final flush sees it
  with the offsets of the last item, and does not read it.
\<close>

definition process ::
  "deps \<Rightarrow> resolver \<Rightarrow> item list \<Rightarrow> error option \<Rightarrow> resolvedStamp \<Rightarrow> world \<Rightarrow> error option \<times> world" where
  "process D r items sm_err rs0 w =
     (if length (Order r) = 0 then (Some (errNoTables (target r)), w)
      else
        (let cursor = \<lparr>Start = CommittedTime rs0, End = ProposedTime rs0, Targets = Order r,
                        Limit = SelectBatchSize (cfg r), cBackfill = Backfill rs0,
                        cOffsetKey = OffsetKey rs0, cOffsetTable = OffsetTable rs0,
                        cOffsetTime = OffsetTime rs0\<rparr>;
             st0 = \<lparr>epoch = hlc_Zero, flushCounter = 0, toApply = [], total = 0, rs = rs0\<rparr>
         in case SelectMany (callback D r) cursor items sm_err st0 w of
              (Inl err, w') \<Rightarrow> (Some err, w')
            | (Inr st, w') \<Rightarrow>
               (case flush D (SourceName D (target r)) (Order r)
                       (if items = [] then cursor else at_offsets cursor (fst (last items)))
                       (rs st) (toApply st) True w' of
                  (Inl err, w'') \<Rightarrow> (Some err, w'')
                | (Inr rs', w'') \<Rightarrow> (None, w''))))"

section \<open>The retire loop\<close>

text \<open>
  \<^verbatim>\<open>time.Duration\<close> and the nanoseconds of a timestamp are \<^verbatim>\<open>int64\<close>; the subtraction
  wraps around.
\<close>

definition int64_sub :: "int \<Rightarrow> int \<Rightarrow> int" where
  "int64_sub a b = sint (word_of_int a - word_of_int b :: 64 word)"

text \<open>
  What the two calls made for one table came to: \<^verbatim>\<open>stagers.Get\<close> and \<^verbatim>\<open>stager.Retire\<close>
  each succeed, fail with \<^verbatim>\<open>context.Canceled\<close>, or fail with another error.
\<close>

datatype outcome = Ok | Canceled | Failed

text \<open>
  The body of the \<^verbatim>\<open>for\<close> loop of \<^verbatim>\<open>retireLoop\<close> for one value of the variable
  \<open>retirements\<close>: \<^verbatim>\<open>targetTables.Range\<close> over the tables of the watcher, in the order of
  the iteration. \<open>next\<close> is the variable declared outside the closure; the closure assigns
  to it. The result is the list of \<^verbatim>\<open>Retire\<close> calls made, the final \<open>next\<close>, and the
  error that stopped the range, if any.
\<close>

fun retire_range ::
  "int \<Rightarrow> (string \<times> outcome \<times> outcome) list \<Rightarrow> hlc \<Rightarrow> (string \<times> hlc) list \<times> hlc \<times> error option" where
  "retire_range off [] next = ([], next, None)"
| "retire_range off ((tbl, get, retire) # rest) next =
     (case get of
        Canceled \<Rightarrow> ([], next, Some ctxErr)
      | Failed \<Rightarrow> retire_range off rest next
      | Ok \<Rightarrow>
          (let next' = (if 0 < off then hlc_New (int64_sub (Nanos next) off) (Logical next) else next)
           in case retire of
                Canceled \<Rightarrow> ([(tbl, next')], next', Some ctxErr)
              | _ \<Rightarrow> (case retire_range off rest next' of
                        (calls, n, e) \<Rightarrow> ((tbl, next') # calls, n, e))))"

text \<open>The \<^verbatim>\<open>Retire\<close> calls made after the variable \<open>retirements\<close> was set to \<open>committed\<close>.\<close>

definition retire_calls :: "int \<Rightarrow> (string \<times> outcome \<times> outcome) list \<Rightarrow> hlc \<Rightarrow> (string \<times> hlc) list" where
  "retire_calls off tables committed = fst (retire_range off tables committed)"

section \<open>The reader\<close>

text \<open>
  \<^verbatim>\<open>nextProposedStamp\<close>: the next unapplied timestamp from the committed time on, made
  into a proposed stamp; the backfill flag is passed on.
\<close>

definition nextProposedStamp ::
  "deps \<Rightarrow> resolver \<Rightarrow> string option \<Rightarrow> resolved_row list \<Rightarrow> resolvedStamp \<Rightarrow> bool
     \<Rightarrow> error + resolvedStamp" where
  "nextProposedStamp D r fault tbl prev backfill =
     (case selectTimestamp fault tbl (target r) (CommittedTime prev) of
        (nextResolved, Some err) \<Rightarrow> Inl err
      | (nextResolved, None) \<Rightarrow>
         (case NewProposed D prev nextResolved of
            Inl err \<Rightarrow> Inl err
          | Inr ret \<Rightarrow> Inr (if backfill then ret\<lparr>Backfill := True\<rparr> else ret)))"

text \<open>
  \<^verbatim>\<open>readInto\<close> is a loop around two \<^verbatim>\<open>select\<close> statements. Which case of a \<^verbatim>\<open>select\<close> is
  taken is up to the scheduler and the other goroutines, so it is an input: a \<open>tick\<close> holds,
  for one turn of the loop, the meta-table and the outcome of the query should the turn
  make one, the case taken by the \<^verbatim>\<open>select\<close> that sends, and the case taken by the
  \<^verbatim>\<open>select\<close> that waits (with the new consistent point when that is what woke it).
  The loop has no exit of its own; when the ticks run out the model answers \<open>Waiting\<close>.
\<close>

datatype send_choice = Sent | SendStopping | SendCtxDone

datatype wait_choice = CpUpdated resolvedStamp | Wakeup | BackupTimer | WaitStopping | WaitCtxDone

record tick =
  db_rows :: "resolved_row list"
  db_fault :: "string option"
  on_send :: send_choice
  on_wait :: wait_choice

text \<open>
  What the reader does that others can see: it sets the variable \<open>retirements\<close>, it
  queries the resolved store, it sends a stamp on the channel to the processor.
\<close>

datatype reader_event = SetRetirements hlc | Query hlc | Emit resolvedStamp

datatype reader_result = Returned "error option" | Waiting

text \<open>
  The block \<^verbatim>\<open>if resumeFrom != nil\<close> up to the send: the events, and either the error
  returned or the pair of \<open>toSend\<close> and the new \<open>resumeFrom\<close>.
\<close>

definition reader_propose ::
  "deps \<Rightarrow> resolver \<Rightarrow> bool \<Rightarrow> resolvedStamp option \<Rightarrow> tick
     \<Rightarrow> reader_event list \<times> (error + (resolvedStamp option \<times> resolvedStamp option))" where
  "reader_propose D r backfill resumeFrom tk =
     (case resumeFrom of
        None \<Rightarrow> ([], Inr (None, None))
      | Some rf \<Rightarrow>
          if ProposedTime rf \<noteq> hlc_Zero then ([], Inr (Some rf, None))
          else (case nextProposedStamp D r (db_fault tk) (db_rows tk) rf backfill of
                  Inr proposed \<Rightarrow> ([Query (CommittedTime rf)], Inr (Some proposed, None))
                | Inl err \<Rightarrow>
                    if err = errNoWork then ([Query (CommittedTime rf)], Inr (None, Some rf))
                    else ([Query (CommittedTime rf)], Inl err)))"

text \<open>The \<^verbatim>\<open>select\<close> that sends \<open>toSend\<close>, when there is something to send.\<close>

definition reader_send :: "resolvedStamp option \<Rightarrow> tick \<Rightarrow> reader_event list \<times> reader_result option" where
  "reader_send toSend tk =
     (case toSend of
        None \<Rightarrow> ([], None)
      | Some s \<Rightarrow>
         (case on_send tk of
            Sent \<Rightarrow> ([Emit s], None)
          | SendStopping \<Rightarrow> ([], Some (Returned None))
          | SendCtxDone \<Rightarrow> ([], Some (Returned (Some ctxErr)))))"

text \<open>The \<^verbatim>\<open>select\<close> that waits: the result returned, or the \<open>resumeFrom\<close> of the next turn.\<close>

definition reader_wait ::
  "resolvedStamp option \<Rightarrow> tick \<Rightarrow> reader_event list \<times> (reader_result + resolvedStamp option)" where
  "reader_wait resumeFrom tk =
     (case on_wait tk of
        CpUpdated next \<Rightarrow>
          if ProposedTime next = hlc_Zero
          then ([SetRetirements (CommittedTime next)], Inr (Some next))
          else ([], Inr resumeFrom)
      | Wakeup \<Rightarrow> ([], Inr resumeFrom)
      | BackupTimer \<Rightarrow> ([], Inr resumeFrom)
      | WaitStopping \<Rightarrow> ([], Inl (Returned None))
      | WaitCtxDone \<Rightarrow> ([], Inl (Returned (Some ctxErr))))"

definition reader_turn ::
  "deps \<Rightarrow> resolver \<Rightarrow> bool \<Rightarrow> resolvedStamp option \<Rightarrow> tick
     \<Rightarrow> reader_event list \<times> (reader_result + resolvedStamp option)" where
  "reader_turn D r backfill resumeFrom tk =
     (case reader_propose D r backfill resumeFrom tk of
        (ev1, Inl err) \<Rightarrow> (ev1, Inl (Returned (Some err)))
      | (ev1, Inr (toSend, resume1)) \<Rightarrow>
         (case reader_send toSend tk of
            (ev2, Some ret) \<Rightarrow> (ev1 @ ev2, Inl ret)
          | (ev2, None) \<Rightarrow>
             (case reader_wait resume1 tk of (ev3, next) \<Rightarrow> (ev1 @ ev2 @ ev3, next))))"

fun readInto_loop ::
  "deps \<Rightarrow> resolver \<Rightarrow> bool \<Rightarrow> resolvedStamp option \<Rightarrow> tick list \<Rightarrow> reader_event list \<times> reader_result" where
  "readInto_loop D r backfill resumeFrom [] = ([], Waiting)"
| "readInto_loop D r backfill resumeFrom (tk # tks) =
     (case reader_turn D r backfill resumeFrom tk of
        (ev, Inl ret) \<Rightarrow> (ev, ret)
      | (ev, Inr resume') \<Rightarrow>
         (case readInto_loop D r backfill resume' tks of (evs, ret) \<Rightarrow> (ev @ evs, ret)))"

text \<open>\<open>cp\<close> is the stamp that \<^verbatim>\<open>state.GetConsistentPoint()\<close> returns at the start.\<close>

definition readInto ::
  "deps \<Rightarrow> resolver \<Rightarrow> bool \<Rightarrow> resolvedStamp \<Rightarrow> tick list \<Rightarrow> reader_event list \<times> reader_result" where
  "readInto D r backfill cp ticks =
     (case readInto_loop D r backfill (Some cp) ticks of
        (evs, ret) \<Rightarrow>
          ((if CommittedTime cp \<noteq> hlc_Zero then [SetRetirements (CommittedTime cp)] else []) @ evs, ret))"

section \<open>Definitions used in the statements and proofs\<close>

subsection \<open>The loop invariant of \<^verbatim>\<open>UniqueByKey\<close>\<close>

text \<open>
  \<open>x0\<close> is the slice as given, \<open>n\<close> the number of its elements not yet visited. The tail
  from \<open>dest\<close> holds one element per key seen, \<open>seen\<close> knows where, and each element
  of the tail is a visited element with the greatest time among the visited elements of
  its key.
\<close>

definition ubk_inv ::
  "Mutation list \<Rightarrow> nat \<Rightarrow> Mutation list \<Rightarrow> (bytes \<rightharpoonup> nat) \<Rightarrow> nat \<Rightarrow> bool" where
  "ubk_inv x0 n x seen dest =
     (n \<le> dest \<and> dest \<le> length x \<and> length x = length x0 \<and>
      (\<forall>i. i < n \<longrightarrow> x ! i = x0 ! i) \<and>
      (\<forall>k i. seen k = Some i \<longrightarrow> dest \<le> i \<and> i < length x \<and> Key (x ! i) = k) \<and>
      (\<forall>i. dest \<le> i \<and> i < length x \<longrightarrow> seen (Key (x ! i)) = Some i) \<and>
      (\<forall>i. dest \<le> i \<and> i < length x \<longrightarrow> x ! i \<in> set (drop n x0)) \<and>
      (\<forall>i. dest \<le> i \<and> i < length x \<longrightarrow>
           (\<forall>m\<in>set (drop n x0). Key m = Key (x ! i) \<longrightarrow> hlc_Compare (Time m) (Time (x ! i)) \<le> 0)) \<and>
      (\<forall>m\<in>set (drop n x0). seen (Key m) \<noteq> None))"

subsection \<open>Traces of calls\<close>

text \<open>Calls made one after the other until one fails.\<close>

fun invoke_all :: "call list \<Rightarrow> world \<Rightarrow> error option \<times> world" where
  "invoke_all [] w = (None, w)"
| "invoke_all (c # cs) w =
     (case invoke c w of (Some err, w') \<Rightarrow> (Some err, w') | (None, w') \<Rightarrow> invoke_all cs w')"

definition succeeded :: "call list \<Rightarrow> (call \<times> error option) list" where
  "succeeded cs = map (\<lambda>c. (c, None)) cs"

definition data_calls :: "string \<Rightarrow> string list \<Rightarrow> TableMap \<Rightarrow> call list" where
  "data_calls source tables ta =
     map (\<lambda>tbl. OnData source tbl (GetZero ta tbl))
       (filter (\<lambda>tbl. GetZero ta tbl \<noteq> []) tables)"

definition written :: "call \<times> error option \<Rightarrow> resolvedStamp list" where
  "written e = (case e of (SetConsistentPoint s, None) \<Rightarrow> [s] | _ \<Rightarrow> [])"

definition last_written :: "resolvedStamp \<Rightarrow> (call \<times> error option) list \<Rightarrow> resolvedStamp" where
  "last_written p tr = last (p # concat (map written tr))"

definition ext :: "world \<Rightarrow> world \<Rightarrow> (call \<times> error option) list \<Rightarrow> bool" where
  "ext w w' tr \<longleftrightarrow> trace w' = trace w @ tr \<and> point w' = last_written (point w) tr"

definition final_calls :: "deps \<Rightarrow> SelectManyCursor \<Rightarrow> resolvedStamp \<Rightarrow> bool \<Rightarrow> call list" where
  "final_calls D cursor s final =
     (if final
      then (case NewCommitted D s of
              Inl _ \<Rightarrow> []
            | Inr s' \<Rightarrow> [Record (CommittedTime s'), SetConsistentPoint s'])
      else [SetConsistentPoint (NewProgress s cursor)])"

definition flush_result :: "deps \<Rightarrow> SelectManyCursor \<Rightarrow> resolvedStamp \<Rightarrow> bool \<Rightarrow> error + resolvedStamp" where
  "flush_result D cursor s final = (if final then NewCommitted D s else Inr (NewProgress s cursor))"

definition body_calls ::
  "deps \<Rightarrow> string \<Rightarrow> string list list \<Rightarrow> SelectManyCursor \<Rightarrow> resolvedStamp \<Rightarrow> TableMap \<Rightarrow> bool \<Rightarrow> call list" where
  "body_calls D source targets cursor s ta final =
     data_calls source (concat targets) ta @ [OnCommit] @ final_calls D cursor s final"

definition clean :: "(call \<times> error option) list \<Rightarrow> bool" where
  "clean tr \<longleftrightarrow> (\<forall>x\<in>set tr. fst x \<noteq> OnRollback \<longrightarrow> snd x = None)"

definition fail_shape :: "error \<Rightarrow> (call \<times> error option) list \<Rightarrow> bool" where
  "fail_shape e tr \<longleftrightarrow>
     (\<exists>pre c post. tr = pre @ (c, Some e) # post \<and> clean pre \<and> c \<noteq> OnRollback \<and>
        (post = [] \<or> (\<exists>out. post = [(OnRollback, out)])))"

definition good :: "error option \<Rightarrow> (call \<times> error option) list \<Rightarrow> bool" where
  "good res tr \<longleftrightarrow> (case res of None \<Rightarrow> clean tr | Some e \<Rightarrow> clean tr \<or> fail_shape e tr)"

definition err_of :: "error + 'a \<Rightarrow> error option" where
  "err_of x = (case x of Inl e \<Rightarrow> Some e | Inr _ \<Rightarrow> None)"

fun is_OnData :: "call \<Rightarrow> bool" where
  "is_OnData (OnData source tbl muts) = True"
| "is_OnData _ = False"

subsection \<open>What a trace carries\<close>

text \<open>
  The mutations that an entry of the trace hands to the target, those of a whole trace,
  and those held in the buffer. A trace keeps epochs apart when, whenever a flush begins
  between two entries, every mutation of the earlier entry has a time strictly below
  every mutation of the later one.
\<close>

definition muts_of :: "call \<times> error option \<Rightarrow> Mutation list" where
  "muts_of e = (case fst e of OnData source tbl muts \<Rightarrow> muts | _ \<Rightarrow> [])"

definition payload :: "(call \<times> error option) list \<Rightarrow> Mutation set" where
  "payload tr = (\<Union>e\<in>set tr. set (muts_of e))"

definition buffered :: "TableMap \<Rightarrow> Mutation set" where
  "buffered m = (\<Union>tbl. set (GetZero m tbl))"

definition apart :: "(call \<times> error option) list \<Rightarrow> bool" where
  "apart tr \<longleftrightarrow>
     (\<forall>i j k. i < j \<and> j < k \<and> k < length tr \<and> fst (tr ! j) = OnBegin \<longrightarrow>
        (\<forall>m1\<in>set (muts_of (tr ! i)). \<forall>m2\<in>set (muts_of (tr ! k)).
           hlc_tuple (Time m1) < hlc_tuple (Time m2)))"

text \<open>The time of the mutation of an item, as a tuple.\<close>

definition item_time :: "item \<Rightarrow> int \<times> int" where
  "item_time it = hlc_tuple (Time (snd (snd it)))"

subsection \<open>Counting and following the buffered mutations\<close>

text \<open>
  The number of mutations in the buffer; the mutations that a trace hands to \<open>OnData\<close> for
  one table, in the order of the calls; and the mutations that the stager delivers for
  one table, in the order of delivery, as the callback buffers them.
\<close>

definition buffer_count :: "TableMap \<Rightarrow> nat" where
  "buffer_count m = sum_list (map (\<lambda>p. length (snd p)) m)"

definition data_for :: "string \<Rightarrow> call \<times> error option \<Rightarrow> Mutation list" where
  "data_for tbl e = (case fst e of OnData source t muts \<Rightarrow> (if t = tbl then muts else []) | _ \<Rightarrow> [])"

definition handed :: "string \<Rightarrow> (call \<times> error option) list \<Rightarrow> Mutation list" where
  "handed tbl tr = concat (map (data_for tbl) tr)"

definition delivered :: "string \<Rightarrow> item list \<Rightarrow> Mutation list" where
  "delivered tbl items =
     map (\<lambda>it. AddMeta ''cdc'' tbl (snd (snd it))) (filter (\<lambda>it. fst (snd it) = tbl) items)"

section \<open>Concrete inputs\<close>

text \<open>Small inputs at which the theorems below are instantiated.\<close>

definition ex_mut :: "string \<Rightarrow> int \<Rightarrow> Mutation" where
  "ex_mut k t = \<lparr>Data = ''{}'', Key = k, Time = hlc_New t 0, Meta = []\<rparr>"

definition ex_row :: "string \<Rightarrow> int \<Rightarrow> int \<Rightarrow> nat option \<Rightarrow> resolved_row" where
  "ex_row s n l a = \<lparr>target_schema = s, source_nanos = n, source_logical = l, target_applied_at = a\<rparr>"

definition ex_store :: store where
  "ex_store = \<lparr>rows = [ex_row ''a'' 5 0 (Some 1), ex_row ''b'' 10 0 None, ex_row ''a'' 7 1 None],
               marked = hlc_Zero\<rparr>"

definition ex_deps :: deps where
  "ex_deps =
     \<lparr>NewCommitted = (\<lambda>s. if ProposedTime s = hlc_Zero then Inl (Failure ''no proposed time'')
                            else Inr (s\<lparr>CommittedTime := ProposedTime s, ProposedTime := hlc_Zero\<rparr>)),
      NewProposed = (\<lambda>s t. if 0 < hlc_Compare (CommittedTime s) t then Inl (Failure ''proposed goes back'')
                             else Inr (s\<lparr>ProposedTime := t\<rparr>)),
      SourceName = (\<lambda>s. s)\<rparr>"

definition ex_cfg :: Config where
  "ex_cfg = \<lparr>BackupPolling = 1, ApplyTimeout = 1, SelectBatchSize = 10, IdealFlushBatchSize = 2,
             FlushEveryTimestamp = False, RetireOffset = 5000000000\<rparr>"

definition ex_resolver :: resolver where
  "ex_resolver = \<lparr>cfg = ex_cfg, target = ''s'', Order = [[''p''], [''c'']]\<rparr>"

definition ex_stamp :: resolvedStamp where
  "ex_stamp = \<lparr>CommittedTime = hlc_Zero, ProposedTime = hlc_New 20 0, Backfill = False,
               OffsetKey = [], OffsetTable = [], OffsetTime = hlc_Zero\<rparr>"

definition ex_world :: "error option list \<Rightarrow> world" where
  "ex_world outcomes = \<lparr>trace = [], point = ex_stamp\<lparr>ProposedTime := hlc_Zero\<rparr>, sched = outcomes\<rparr>"

definition ex_item :: "string \<Rightarrow> string \<Rightarrow> int \<Rightarrow> item" where
  "ex_item tbl k t = ((k, tbl, hlc_New t 0), tbl, ex_mut k t)"

definition ex_tick :: "send_choice \<Rightarrow> wait_choice \<Rightarrow> tick" where
  "ex_tick s wt = \<lparr>db_rows = rows ex_store, db_fault = None, on_send = s, on_wait = wt\<rparr>"

section \<open>Theorems\<close>

subsection \<open>Deletions\<close>

lemma bytes_Equal_iff: "bytes_Equal a b = (a = b)"
  by (induction a b rule: bytes_Equal.induct) auto

text \<open>
  C10. For every mutation \<open>m\<close>, \<open>IsDelete m\<close> is true if and only if the data of \<open>m\<close> is
  empty or is exactly the four bytes \<open>null\<close>.
\<close>

theorem IsDelete_iff:
  "IsDelete m = (Data m = [] \<or> Data m = ''null'')"
  by (simp add: IsDelete_def bytes_Equal_iff nullBytes_def)

subsection \<open>De-duplication: last one wins\<close>

lemma hlc_Compare_refl: "hlc_Compare a a = 0"
  by (simp add: hlc_Compare_def)

lemma hlc_Compare_trans_le:
  "hlc_Compare a b \<le> 0 \<Longrightarrow> hlc_Compare b c \<le> 0 \<Longrightarrow> hlc_Compare a c \<le> 0"
  by (simp add: hlc_Compare_def split: if_splits)

lemma hlc_Compare_flip: "0 < hlc_Compare a b \<Longrightarrow> hlc_Compare b a \<le> 0"
  by (simp add: hlc_Compare_def split: if_splits)

lemma ubk_inv_init: "ubk_inv x (length x) x Map.empty (length x)"
  by (simp add: ubk_inv_def)

lemma drop_step: "src < length x0 \<Longrightarrow> set (drop src x0) = insert (x0 ! src) (set (drop (Suc src) x0))"
  by (simp add: Cons_nth_drop_Suc [symmetric])


lemma ubk_invI:
  assumes "n \<le> dest" "dest \<le> length x" "length x = length x0"
    and "\<And>i. i < n \<Longrightarrow> x ! i = x0 ! i"
    and "\<And>k i. seen k = Some i \<Longrightarrow> dest \<le> i \<and> i < length x \<and> Key (x ! i) = k"
    and "\<And>i. dest \<le> i \<Longrightarrow> i < length x \<Longrightarrow> seen (Key (x ! i)) = Some i"
    and "\<And>i. dest \<le> i \<Longrightarrow> i < length x \<Longrightarrow> x ! i \<in> set (drop n x0)"
    and "\<And>i m. dest \<le> i \<Longrightarrow> i < length x \<Longrightarrow> m \<in> set (drop n x0) \<Longrightarrow> Key m = Key (x ! i)
            \<Longrightarrow> hlc_Compare (Time m) (Time (x ! i)) \<le> 0"
    and "\<And>m. m \<in> set (drop n x0) \<Longrightarrow> seen (Key m) \<noteq> None"
  shows "ubk_inv x0 n x seen dest"
  unfolding ubk_inv_def using assms by blast

lemma ubk_invD:
  assumes "ubk_inv x0 n x seen dest"
  shows "n \<le> dest" "dest \<le> length x" "length x = length x0"
    and "\<And>i. i < n \<Longrightarrow> x ! i = x0 ! i"
    and "\<And>k i. seen k = Some i \<Longrightarrow> dest \<le> i \<and> i < length x \<and> Key (x ! i) = k"
    and "\<And>i. dest \<le> i \<Longrightarrow> i < length x \<Longrightarrow> seen (Key (x ! i)) = Some i"
    and "\<And>i. dest \<le> i \<Longrightarrow> i < length x \<Longrightarrow> x ! i \<in> set (drop n x0)"
    and "\<And>i m. dest \<le> i \<Longrightarrow> i < length x \<Longrightarrow> m \<in> set (drop n x0) \<Longrightarrow> Key m = Key (x ! i)
            \<Longrightarrow> hlc_Compare (Time m) (Time (x ! i)) \<le> 0"
    and "\<And>m. m \<in> set (drop n x0) \<Longrightarrow> seen (Key m) \<noteq> None"
  using assms unfolding ubk_inv_def by blast+

lemma ubk_inv_keep:
  assumes inv: "ubk_inv x0 (Suc src) x seen dest"
    and seen: "seen (Key (x ! src)) = Some cur"
    and le: "\<not> 0 < hlc_Compare (Time (x ! src)) (Time (x ! cur))"
  shows "ubk_inv x0 src x seen dest"
proof -
  note D = ubk_invD [OF inv]
  have src: "src < length x0" using D(1-3) by simp
  have xs: "x ! src = x0 ! src" using D(4) by simp
  have d: "set (drop src x0) = insert (x ! src) (set (drop (Suc src) x0))"
    using drop_step [OF src] xs by simp
  have cur: "dest \<le> cur" "cur < length x" "Key (x ! cur) = Key (x ! src)"
    using D(5) [OF seen] by simp_all
  show ?thesis
  proof (rule ubk_invI)
    show "src \<le> dest" using D(1) by simp
    show "dest \<le> length x" by (rule D(2))
    show "length x = length x0" by (rule D(3))
    show "x ! i = x0 ! i" if "i < src" for i using D(4) [of i] that by simp
    show "dest \<le> i \<and> i < length x \<and> Key (x ! i) = k" if "seen k = Some i" for k i
      using D(5) [OF that] .
    show "seen (Key (x ! i)) = Some i" if "dest \<le> i" "i < length x" for i
      using D(6) [OF that] .
    show "x ! i \<in> set (drop src x0)" if "dest \<le> i" "i < length x" for i
      using D(7) [OF that] d by simp
    show "hlc_Compare (Time m) (Time (x ! i)) \<le> 0"
      if i: "dest \<le> i" "i < length x" and m: "m \<in> set (drop src x0)" and k: "Key m = Key (x ! i)"
      for i m
    proof (cases "m = x ! src")
      case True
      have "seen (Key (x ! i)) = Some i" using D(6) [OF i] .
      with k True seen have "i = cur" by simp
      with True le show ?thesis by simp
    next
      case False
      with m d have "m \<in> set (drop (Suc src) x0)" by simp
      then show ?thesis using D(8) [OF i _ k] by simp
    qed
    show "seen (Key m) \<noteq> None" if "m \<in> set (drop src x0)" for m
    proof (cases "m = x ! src")
      case True with seen show ?thesis by simp
    next
      case False
      with that d have "m \<in> set (drop (Suc src) x0)" by simp
      then show ?thesis by (rule D(9))
    qed
  qed
qed

lemma ubk_inv_replace:
  assumes inv: "ubk_inv x0 (Suc src) x seen dest"
    and seen: "seen (Key (x ! src)) = Some cur"
    and gt: "0 < hlc_Compare (Time (x ! src)) (Time (x ! cur))"
  shows "ubk_inv x0 src (x[cur := x ! src]) seen dest"
proof -
  note D = ubk_invD [OF inv]
  have src: "src < length x0" using D(1-3) by simp
  have xs: "x ! src = x0 ! src" using D(4) by simp
  have d: "set (drop src x0) = insert (x ! src) (set (drop (Suc src) x0))"
    using drop_step [OF src] xs by simp
  have cur: "dest \<le> cur" "cur < length x" "Key (x ! cur) = Key (x ! src)"
    using D(5) [OF seen] by simp_all
  let ?x = "x[cur := x ! src]"
  have nth: "?x ! i = (if i = cur then x ! src else x ! i)" if "i < length x" for i
    using that by (simp add: nth_list_update)
  have key: "Key (?x ! i) = Key (x ! i)" if "i < length x" for i
    using nth [OF that] cur(3) by simp
  show ?thesis
  proof (rule ubk_invI)
    show "src \<le> dest" using D(1) by simp
    show "dest \<le> length ?x" using D(2) by simp
    show "length ?x = length x0" using D(3) by simp
    show "?x ! i = x0 ! i" if "i < src" for i
    proof -
      have "i \<noteq> cur" using that cur(1) D(1) by simp
      then show ?thesis using D(4) [of i] that by simp
    qed
    show "dest \<le> i \<and> i < length ?x \<and> Key (?x ! i) = k" if "seen k = Some i" for k i
      using D(5) [OF that] key [of i] by simp
    show "seen (Key (?x ! i)) = Some i" if "dest \<le> i" "i < length ?x" for i
      using D(6) [of i] that key [of i] by simp
    show "?x ! i \<in> set (drop src x0)" if "dest \<le> i" "i < length ?x" for i
    proof -
      have il: "i < length x" using that by simp
      show ?thesis
      proof (cases "i = cur")
        case True
        with nth [OF il] d show ?thesis by simp
      next
        case False
        with nth [OF il] d D(7) [OF that(1) il] show ?thesis by simp
      qed
    qed
    show "hlc_Compare (Time m) (Time (?x ! i)) \<le> 0"
      if i: "dest \<le> i" "i < length ?x" and m: "m \<in> set (drop src x0)" and k: "Key m = Key (?x ! i)"
      for i m
    proof -
      have il: "i < length x" using i by simp
      have k': "Key m = Key (x ! i)" using k key [OF il] by simp
      have si: "seen (Key (x ! i)) = Some i" using D(6) [OF i(1) il] .
      show ?thesis
      proof (cases "m = x ! src")
        case True
        with k' si seen have "i = cur" by simp
        with True nth [OF il] show ?thesis by (simp add: hlc_Compare_refl)
      next
        case False
        with m d have m': "m \<in> set (drop (Suc src) x0)" by simp
        have old: "hlc_Compare (Time m) (Time (x ! i)) \<le> 0" using D(8) [OF i(1) il m' k'] .
        show ?thesis
        proof (cases "i = cur")
          case True
          have "hlc_Compare (Time (x ! cur)) (Time (x ! src)) \<le> 0"
            using gt by (rule hlc_Compare_flip)
          with old True have "hlc_Compare (Time m) (Time (x ! src)) \<le> 0"
            using hlc_Compare_trans_le by blast
          with True nth [OF il] show ?thesis by simp
        next
          case False
          with old nth [OF il] show ?thesis by simp
        qed
      qed
    qed
    show "seen (Key m) \<noteq> None" if "m \<in> set (drop src x0)" for m
    proof (cases "m = x ! src")
      case True with seen show ?thesis by simp
    next
      case False
      with that d have "m \<in> set (drop (Suc src) x0)" by simp
      then show ?thesis by (rule D(9))
    qed
  qed
qed

lemma ubk_inv_fresh:
  assumes inv: "ubk_inv x0 (Suc src) x seen dest"
    and seen: "seen (Key (x ! src)) = None"
  shows "ubk_inv x0 src (x[dest - 1 := x ! src]) (seen(Key (x ! src) \<mapsto> dest - 1)) (dest - 1)"
proof -
  note D = ubk_invD [OF inv]
  have src: "src < length x0" using D(1-3) by simp
  have xs: "x ! src = x0 ! src" using D(4) by simp
  have d: "set (drop src x0) = insert (x ! src) (set (drop (Suc src) x0))"
    using drop_step [OF src] xs by simp
  let ?d = "dest - 1"
  let ?x = "x[?d := x ! src]"
  let ?seen = "seen(Key (x ! src) \<mapsto> ?d)"
  have dl: "?d < length x" "src \<le> ?d" "Suc ?d = dest" using D(1,2) by simp_all
  have nth: "?x ! i = (if i = ?d then x ! src else x ! i)" if "i < length x" for i
    using that by (simp add: nth_list_update)
  have other: "Key (x ! i) \<noteq> Key (x ! src)" if "dest \<le> i" "i < length x" for i
    using D(6) [OF that] seen by auto
  show ?thesis
  proof (rule ubk_invI)
    show "src \<le> ?d" by (rule dl)
    show "?d \<le> length ?x" using dl by simp
    show "length ?x = length x0" using D(3) by simp
    show "?x ! i = x0 ! i" if "i < src" for i
    proof -
      have "i \<noteq> ?d" using that dl by simp
      then show ?thesis using D(4) [of i] that by simp
    qed
    show "?d \<le> i \<and> i < length ?x \<and> Key (?x ! i) = k" if "?seen k = Some i" for k i
    proof (cases "k = Key (x ! src)")
      case True
      with that have "i = ?d" by simp
      with True dl nth [of i] show ?thesis by simp
    next
      case False
      with that have s: "seen k = Some i" by simp
      have "dest \<le> i" "i < length x" "Key (x ! i) = k" using D(5) [OF s] by simp_all
      moreover from this dl have "i \<noteq> ?d" by simp
      ultimately show ?thesis using nth [of i] by simp
    qed
    show "?seen (Key (?x ! i)) = Some i" if "?d \<le> i" "i < length ?x" for i
    proof (cases "i = ?d")
      case True
      with dl nth [of i] show ?thesis by simp
    next
      case False
      with that dl have i: "dest \<le> i" "i < length x" by simp_all
      from other [OF i] D(6) [OF i] False nth [of i] i show ?thesis by simp
    qed
    show "?x ! i \<in> set (drop src x0)" if "?d \<le> i" "i < length ?x" for i
    proof (cases "i = ?d")
      case True
      with dl nth [of i] d show ?thesis by simp
    next
      case False
      with that dl have i: "dest \<le> i" "i < length x" by simp_all
      from D(7) [OF i] False nth [of i] i d show ?thesis by simp
    qed
    show "hlc_Compare (Time m) (Time (?x ! i)) \<le> 0"
      if i: "?d \<le> i" "i < length ?x" and m: "m \<in> set (drop src x0)" and k: "Key m = Key (?x ! i)"
      for i m
    proof (cases "i = ?d")
      case True
      then have xi: "?x ! i = x ! src" using dl nth [of i] by simp
      show ?thesis
      proof (cases "m = x ! src")
        case True
        with xi show ?thesis by (simp add: hlc_Compare_refl)
      next
        case False
        with m d have "m \<in> set (drop (Suc src) x0)" by simp
        then have "seen (Key m) \<noteq> None" by (rule D(9))
        with k xi seen show ?thesis by simp
      qed
    next
      case False
      with i dl have i': "dest \<le> i" "i < length x" by simp_all
      have xi: "?x ! i = x ! i" using False nth [OF i'(2)] by simp
      show ?thesis
      proof (cases "m = x ! src")
        case True
        with k xi other [OF i'] show ?thesis by simp
      next
        case False
        with m d have "m \<in> set (drop (Suc src) x0)" by simp
        then show ?thesis using D(8) [OF i'] k xi by simp
      qed
    qed
    show "?seen (Key m) \<noteq> None" if "m \<in> set (drop src x0)" for m
    proof (cases "Key m = Key (x ! src)")
      case True then show ?thesis by simp
    next
      case False
      with that d have "m \<in> set (drop (Suc src) x0)" by auto
      then have "seen (Key m) \<noteq> None" by (rule D(9))
      with False show ?thesis by simp
    qed
  qed
qed

lemma ubk_loop_returns:
  assumes "ubk_inv x0 n x seen dest" and "\<forall>i. i < n \<longrightarrow> Key (x0 ! i) \<noteq> []"
  shows "\<exists>x' dest' seen'. UniqueByKey_loop n x seen dest = Inr (x', dest') \<and> ubk_inv x0 0 x' seen' dest'"
  using assms
proof (induction n arbitrary: x seen dest)
  case 0
  then show ?case by auto
next
  case (Suc src)
  note D = ubk_invD [OF Suc.prems(1)]
  have src: "src < length x" using D(1-3) by simp
  have key: "Key (x ! src) \<noteq> []" using D(4) [of src] Suc.prems(2) by simp
  have rest: "\<forall>i. i < src \<longrightarrow> Key (x0 ! i) \<noteq> []" using Suc.prems(2) by simp
  show ?case
  proof (cases "seen (Key (x ! src))")
    case None
    have d: "dest \<noteq> 0" "dest - 1 < length x" using D(1,2) by simp_all
    have step: "UniqueByKey_loop (Suc src) x seen dest =
    UniqueByKey_loop src (x[dest - 1 := x ! src]) (seen(Key (x ! src) \<mapsto> dest - 1)) (dest - 1)"
    using src key None d by simp
    show ?thesis unfolding step
    by (rule Suc.IH [OF ubk_inv_fresh [OF Suc.prems(1) None] rest])
  next
    case (Some cur)
    have cur: "cur < length x" using D(5) [OF Some] by simp
    show ?thesis
    proof (cases "0 < hlc_Compare (Time (x ! src)) (Time (x ! cur))")
      case True
      from Suc.IH [OF ubk_inv_replace [OF Suc.prems(1) Some True] rest]
      show ?thesis using src key Some cur True by simp
    next
      case False
      from Suc.IH [OF ubk_inv_keep [OF Suc.prems(1) Some False] rest]
      show ?thesis using src key Some cur False by simp
    qed
  qed
qed

lemma ubk_loop_panics:
  assumes "ubk_inv x0 n x seen dest" and "\<exists>i. i < n \<and> Key (x0 ! i) = []"
  shows "UniqueByKey_loop n x seen dest = Inl EmptyMutationKey"
  using assms
proof (induction n arbitrary: x seen dest)
  case 0
  then show ?case by simp
next
  case (Suc src)
  note D = ubk_invD [OF Suc.prems(1)]
  have src: "src < length x" using D(1-3) by simp
  show ?case
  proof (cases "Key (x ! src) = []")
    case True
    with src show ?thesis by simp
  next
    case key: False
    have "Key (x0 ! src) \<noteq> []" using key D(4) [of src] by simp
    with Suc.prems(2) have rest: "\<exists>i. i < src \<and> Key (x0 ! i) = []"
      by (metis less_Suc_eq)
    show ?thesis
    proof (cases "seen (Key (x ! src))")
      case None
      have d: "dest \<noteq> 0" "dest - 1 < length x" using D(1,2) by simp_all
      have step: "UniqueByKey_loop (Suc src) x seen dest =
      UniqueByKey_loop src (x[dest - 1 := x ! src]) (seen(Key (x ! src) \<mapsto> dest - 1)) (dest - 1)"
      using src key None d by simp
      show ?thesis unfolding step
      by (rule Suc.IH [OF ubk_inv_fresh [OF Suc.prems(1) None] rest])
    next
      case (Some cur)
      have cur: "cur < length x" using D(5) [OF Some] by simp
      show ?thesis
      proof (cases "0 < hlc_Compare (Time (x ! src)) (Time (x ! cur))")
        case True
        from Suc.IH [OF ubk_inv_replace [OF Suc.prems(1) Some True] rest]
        show ?thesis using src key Some cur True by simp
      next
        case False
        from Suc.IH [OF ubk_inv_keep [OF Suc.prems(1) Some False] rest]
        show ?thesis using src key Some cur False by simp
      qed
    qed
  qed
qed

lemma ubk_inv_final:
  assumes inv: "ubk_inv x0 0 x seen dest"
  shows "distinct (map Key (drop dest x))"
    and "set (map Key (drop dest x)) = set (map Key x0)"
    and "\<And>m. m \<in> set (drop dest x) \<Longrightarrow> m \<in> set x0"
    and "\<And>m m'. m \<in> set (drop dest x) \<Longrightarrow> m' \<in> set x0 \<Longrightarrow> Key m' = Key m
           \<Longrightarrow> hlc_Compare (Time m') (Time m) \<le> 0"
proof -
  note D = ubk_invD [OF inv]
  have el: "\<exists>i. dest \<le> i \<and> i < length x \<and> m = x ! i" if "m \<in> set (drop dest x)" for m
  proof -
    from that obtain j where "j < length (drop dest x)" "m = drop dest x ! j"
      by (auto simp: in_set_conv_nth)
    then have "dest \<le> dest + j \<and> dest + j < length x \<and> m = x ! (dest + j)"
      using D(2) by simp
    then show ?thesis by blast
  qed
  have le: "x ! i \<in> set (drop dest x)" if "dest \<le> i" "i < length x" for i
  proof -
    have "drop dest x ! (i - dest) = x ! i" using that by simp
    moreover have "i - dest < length (drop dest x)" using that by simp
    ultimately show ?thesis by (metis nth_mem)
  qed
  show "distinct (map Key (drop dest x))"
  proof (simp add: distinct_conv_nth, intro allI impI)
    fix i j assume i: "i < length x - dest" and j: "j < length x - dest" and ne: "i \<noteq> j"
    have "seen (Key (x ! (dest + i))) = Some (dest + i)" using D(6) [of "dest + i"] i by simp
    moreover have "seen (Key (x ! (dest + j))) = Some (dest + j)" using D(6) [of "dest + j"] j by simp
    ultimately show "Key (x ! (dest + i)) \<noteq> Key (x ! (dest + j))" using ne by auto
  qed
  show "m \<in> set x0" if "m \<in> set (drop dest x)" for m
  proof -
    from el [OF that] obtain i where "dest \<le> i" "i < length x" "m = x ! i" by blast
    with D(7) [of i] show ?thesis by simp
  qed
  note sub = this
  show "set (map Key (drop dest x)) = set (map Key x0)"
  proof (intro equalityI subsetI)
    fix k assume "k \<in> set (map Key (drop dest x))"
    then obtain m where "m \<in> set (drop dest x)" "k = Key m" by auto
    with sub [of m] show "k \<in> set (map Key x0)" by auto
  next
    fix k assume "k \<in> set (map Key x0)"
    then obtain m where m: "m \<in> set x0" "k = Key m" by auto
    then have "seen k \<noteq> None" using D(9) [of m] by simp
    then obtain i where s: "seen k = Some i" by auto
    from D(5) [OF s] le [of i] show "k \<in> set (map Key (drop dest x))" by auto
  qed
  show "hlc_Compare (Time m') (Time m) \<le> 0"
    if "m \<in> set (drop dest x)" "m' \<in> set x0" "Key m' = Key m" for m m'
  proof -
    from el [OF that(1)] obtain i where "dest \<le> i" "i < length x" "m = x ! i" by blast
    with D(8) [of i m'] that show ?thesis by simp
  qed
qed

text \<open>
  C9. When every mutation of the input has a non-empty key, \<open>UniqueByKey\<close> returns a slice
  in which every key of the input occurs exactly once, and the mutation kept for a key is
  one of the input mutations with that key whose time is greatest among them (no input
  mutation of the key compares later). When some key is empty, the function panics with
  the message for an empty key. No index of the in-place loop leaves the slice.
\<close>

theorem UniqueByKey_last_one_wins:
  "(if \<forall>m\<in>set x. Key m \<noteq> []
    then \<exists>r. UniqueByKey x = Inr r \<and>
           distinct (map Key r) \<and> set (map Key r) = set (map Key x) \<and>
           (\<forall>m\<in>set r. m \<in> set x \<and>
              (\<forall>m'\<in>set x. Key m' = Key m \<longrightarrow> hlc_Compare (Time m') (Time m) \<le> 0))
    else UniqueByKey x = Inl EmptyMutationKey)"
proof (cases "\<forall>m\<in>set x. Key m \<noteq> []")
  case True
  then have "\<forall>i. i < length x \<longrightarrow> Key (x ! i) \<noteq> []" by simp
  from ubk_loop_returns [OF ubk_inv_init this]
  obtain x' dest' seen' where run: "UniqueByKey_loop (length x) x Map.empty (length x) = Inr (x', dest')"
    and inv: "ubk_inv x 0 x' seen' dest'" by blast
  have "dest' \<le> length x'" using ubk_invD(2) [OF inv] .
  then have res: "UniqueByKey x = Inr (drop dest' x')" using run by (simp add: UniqueByKey_def)
  note F = ubk_inv_final [OF inv]
  have "distinct (map Key (drop dest' x'))" by (rule F(1))
  moreover have "set (map Key (drop dest' x')) = set (map Key x)" by (rule F(2))
  moreover have "\<forall>m\<in>set (drop dest' x'). m \<in> set x \<and>
              (\<forall>m'\<in>set x. Key m' = Key m \<longrightarrow> hlc_Compare (Time m') (Time m) \<le> 0)"
    using F(3,4) by blast
  ultimately show ?thesis using True res by simp
next
  case False
  then have "\<exists>i. i < length x \<and> Key (x ! i) = []" by (auto simp: in_set_conv_nth)
  from ubk_loop_panics [OF ubk_inv_init this] False
  show ?thesis by (simp add: UniqueByKey_def)
qed

theorem UniqueByKey_last_one_wins_witness:
  "UniqueByKey [ex_mut ''a'' 1, ex_mut ''b'' 5, ex_mut ''a'' 3, ex_mut ''b'' 2]
     = Inr [ex_mut ''a'' 3, ex_mut ''b'' 5]
   \<and> UniqueByKey [ex_mut ''a'' 1, ex_mut [] 5, ex_mut ''a'' 3] = Inl EmptyMutationKey"
  using UniqueByKey_last_one_wins [of "[ex_mut ''a'' 1, ex_mut ''b'' 5, ex_mut ''a'' 3, ex_mut ''b'' 2]"]
    UniqueByKey_last_one_wins [of "[ex_mut ''a'' 1, ex_mut [] 5, ex_mut ''a'' 3]"]
  by (simp add: UniqueByKey_def ex_mut_def hlc_Compare_def hlc_New_def)

subsection \<open>The resolved store: marking and selecting\<close>

lemma sorted_le_last: "sorted ys \<Longrightarrow> y \<in> set ys \<Longrightarrow> y \<le> (last ys :: 'b::linorder)"
  by (induction ys) auto

lemma take1_rev_sorted_max:
  fixes f :: "'a \<Rightarrow> 'b::linorder"
  assumes "take 1 (rev (sort_key f xs)) = y # ys"
  shows "ys = [] \<and> y \<in> set xs \<and> (\<forall>x\<in>set xs. f x \<le> f y)"
proof -
  let ?s = "sort_key f xs"
  from assms have ne: "?s \<noteq> []" by auto
  have y: "y = last ?s" and ys: "ys = []"
    using assms ne by (auto simp: take_Suc hd_rev split: list.splits if_splits)
  have "last ?s \<in> set ?s" using ne by (rule last_in_set)
  then have mem: "y \<in> set xs" using y by simp
  have "\<forall>x\<in>set xs. f x \<le> f y"
  proof
    fix x assume "x \<in> set xs"
    then have "f x \<in> set (map f ?s)" by simp
    moreover have "sorted (map f ?s)" by simp
    ultimately have "f x \<le> last (map f ?s)" using sorted_le_last by blast
    then show "f x \<le> f y" using y ne by (simp add: last_map)
  qed
  with ys mem show ?thesis by simp
qed

lemma take1_sorted_min:
  fixes f :: "'a \<Rightarrow> 'b::linorder"
  assumes "take 1 (sort_key f xs) = y # ys"
  shows "ys = [] \<and> y \<in> set xs \<and> (\<forall>x\<in>set xs. f y \<le> f x)"
proof -
  let ?s = "sort_key f xs"
  from assms have ne: "?s \<noteq> []" by auto
  have y: "y = hd ?s" and ys: "ys = []"
    using assms ne by (auto simp: take_Suc split: list.splits if_splits)
  have "hd ?s \<in> set ?s" using ne by (rule hd_in_set)
  then have mem: "y \<in> set xs" using y by simp
  have "\<forall>x\<in>set xs. f y \<le> f x"
  proof
    fix x assume "x \<in> set xs"
    then have "f x \<in> set (map f ?s)" by simp
    moreover have "sorted (map f ?s)" by simp
    moreover have "map f ?s = f y # tl (map f ?s)" using y ne by (cases ?s) auto
    ultimately show "f y \<le> f x" by (metis order_refl set_ConsD sorted_simps(2))
  qed
  with ys mem show ?thesis by simp
qed

lemma sort_key_Nil_iff: "sort_key f xs = [] \<longleftrightarrow> xs = []"
  by (metis length_0_conv length_sort)

lemma not_before_Nil: "not_before tbl s = [] \<longleftrightarrow> checkpoints s tbl = []"
  by (auto simp: not_before_def checkpoints_def take_Suc sort_key_Nil_iff split: list.splits)

lemma not_before_Cons:
  assumes "not_before tbl s = t # ts"
  shows "t \<in> set (checkpoints s tbl)" and "\<And>c. c \<in> set (checkpoints s tbl) \<Longrightarrow> c \<le> t"
proof -
  from assms obtain y ys where
    tk: "take 1 (rev (sort_key row_tuple (filter (\<lambda>r. target_schema r = s) tbl))) = y # ys"
    and t: "t = row_tuple y"
    by (auto simp: not_before_def)
  note M = take1_rev_sorted_max [OF tk]
  show "t \<in> set (checkpoints s tbl)" using M t by (auto simp: checkpoints_def)
  show "c \<le> t" if "c \<in> set (checkpoints s tbl)" for c
    using M t that by (auto simp: checkpoints_def)
qed

lemma to_insert_eq:
  "to_insert tbl s (Nanos ts) (Logical ts) =
     (if \<forall>c\<in>set (checkpoints s tbl). c < hlc_tuple ts then [mark_row s ts] else [])"
proof (cases "not_before tbl s")
  case Nil
  then have "checkpoints s tbl = []" by (simp add: not_before_Nil)
  with Nil show ?thesis by (simp add: to_insert_def mark_row_def)
next
  case (Cons t rest)
  note N = not_before_Cons [OF Cons]
  have "(t < hlc_tuple ts) = (\<forall>c\<in>set (checkpoints s tbl). c < hlc_tuple ts)"
    using N by (meson le_less_trans)
  with Cons show ?thesis by (simp add: to_insert_def mark_row_def hlc_tuple_def)
qed

lemma sql_insert_mark:
  assumes "\<forall>c\<in>set (checkpoints s tbl). c < hlc_tuple ts"
  shows "sql_insert tbl [mark_row s ts] = Inr (1, tbl @ [mark_row s ts])"
proof -
  have "pk (mark_row s ts) \<notin> pk ` set tbl"
  proof
    assume "pk (mark_row s ts) \<in> pk ` set tbl"
    then obtain r where r: "r \<in> set tbl" "pk r = pk (mark_row s ts)" by auto
    then have "target_schema r = s" and eq: "row_tuple r = hlc_tuple ts"
      by (auto simp: pk_def mark_row_def row_tuple_def hlc_tuple_def)
    with r(1) have "r \<in> set (filter (\<lambda>r. target_schema r = s) tbl)" by simp
    then have "row_tuple r \<in> set (checkpoints s tbl)"
      unfolding checkpoints_def set_map by (rule imageI)
    with assms eq show False by auto
  qed
  then show ?thesis by (simp add: sql_insert_def)
qed

lemma Mark_None:
  "Mark None sch ts st =
     (None, if \<forall>c\<in>set (checkpoints sch (rows st)). c < hlc_tuple ts
            then st\<lparr>rows := rows st @ [mark_row sch ts], marked := ts\<rparr> else st)"
proof (cases "\<forall>c\<in>set (checkpoints sch (rows st)). c < hlc_tuple ts")
  case True
  have "to_insert (rows st) sch (Nanos ts) (Logical ts) = [mark_row sch ts]"
    unfolding to_insert_eq by (rule if_P [OF True])
  then have "Mark None sch ts st = (None, st\<lparr>rows := rows st @ [mark_row sch ts], marked := ts\<rparr>)"
    by (simp add: Mark_def exec_mark_def sql_insert_mark [OF True])
  then show ?thesis by (simp only: if_P [OF True])
next
  case False
  have "to_insert (rows st) sch (Nanos ts) (Logical ts) = []"
    unfolding to_insert_eq by (rule if_not_P [OF False])
  then have "Mark None sch ts st = (None, st)"
    by (simp add: Mark_def exec_mark_def sql_insert_def)
  then show ?thesis by (simp only: if_not_P [OF False])
qed

lemma Mark_Some: "Mark (Some msg) sch ts st = (Some (Failure msg), st)"
  by (simp add: Mark_def exec_mark_def)

lemma checkpoints_append: "checkpoints s (a @ b) = checkpoints s a @ checkpoints s b"
  by (simp add: checkpoints_def)

lemma Mark_sorted:
  assumes "sorted_wrt (<) (checkpoints s (rows st))"
  shows "sorted_wrt (<) (checkpoints s (rows (snd (Mark fault sch ts st))))"
proof (cases fault)
  case (Some msg)
  with assms show ?thesis by (simp add: Mark_Some)
next
  case None
  show ?thesis
  proof (cases "\<forall>c\<in>set (checkpoints sch (rows st)). c < hlc_tuple ts")
    case False
    then have "Mark None sch ts st = (None, st)" by (simp only: Mark_None if_not_P if_False)
    with None assms show ?thesis by simp
  next
    case True
    have "checkpoints s [mark_row sch ts] = (if s = sch then [hlc_tuple ts] else [])"
      by (simp add: checkpoints_def mark_row_def row_tuple_def hlc_tuple_def)
    moreover from True have "Mark None sch ts st =
        (None, st\<lparr>rows := rows st @ [mark_row sch ts], marked := ts\<rparr>)"
      by (simp only: Mark_None if_P if_True)
    ultimately show ?thesis using True None assms
      by (simp add: checkpoints_append sorted_wrt_append)
  qed
qed

lemma Marks_sorted:
  "sorted_wrt (<) (checkpoints s (rows st)) \<Longrightarrow> sorted_wrt (<) (checkpoints s (rows (Marks cs st)))"
proof (induction cs arbitrary: st)
  case Nil
  then show ?case by simp
next
  case (Cons c cs)
  obtain fault sch ts where c: "c = (fault, sch, ts)" by (cases c) auto
  show ?case unfolding c Marks.simps
    by (rule Cons.IH) (rule Mark_sorted [OF Cons.prems])
qed

text \<open>
  C1. When the database call succeeds, \<open>Mark\<close> for a schema inserts the checkpoint \<open>ts\<close>
  (and sets the variable \<open>marked\<close>) exactly if \<open>ts\<close> is strictly greater, in the tuple
  order on \<open>(nanos, logical)\<close>, than every checkpoint recorded for that schema, which
  includes the case of no checkpoint; otherwise it inserts nothing, leaves the store as it
  is and returns no error. A failed database call leaves the store as it is and its error
  is returned. Hence, whatever calls of \<open>Mark\<close> are made on an empty table, the
  checkpoints of every schema are strictly increasing in the order they were stored.
\<close>

theorem Mark_monotone:
  "Mark None sch ts st =
     (None, if \<forall>c\<in>set (checkpoints sch (rows st)). c < hlc_tuple ts
            then st\<lparr>rows := rows st @ [mark_row sch ts], marked := ts\<rparr> else st)
   \<and> Mark (Some msg) sch ts st = (Some (Failure msg), st)
   \<and> sorted_wrt (<) (checkpoints s (rows (Marks cs \<lparr>rows = [], marked = m\<rparr>)))"
proof -
  have "sorted_wrt (<) (checkpoints s (rows \<lparr>rows = [], marked = m\<rparr>))"
    by (simp add: checkpoints_def)
  then have "sorted_wrt (<) (checkpoints s (rows (Marks cs \<lparr>rows = [], marked = m\<rparr>)))"
    by (rule Marks_sorted)
  then show ?thesis using Mark_None Mark_Some by blast
qed

theorem Mark_monotone_witness:
  "Mark None ''a'' (hlc_New 7 2) ex_store
     = (None, ex_store\<lparr>rows := rows ex_store @ [mark_row ''a'' (hlc_New 7 2)], marked := hlc_New 7 2\<rparr>)
   \<and> Mark None ''a'' (hlc_New 7 1) ex_store = (None, ex_store)
   \<and> Mark None ''a'' (hlc_New 6 9) ex_store = (None, ex_store)"
  using Mark_monotone [of "''a''" "hlc_New 7 2" ex_store]
    Mark_monotone [of "''a''" "hlc_New 7 1" ex_store]
    Mark_monotone [of "''a''" "hlc_New 6 9" ex_store]
  by (simp add: checkpoints_def ex_store_def ex_row_def row_tuple_def hlc_tuple_def hlc_New_def)

lemma selectTimestamp_query_Nil:
  "selectTimestamp_query tbl s (Nanos after) (Logical after) = [] \<longleftrightarrow> unapplied_from tbl s after = {}"
  by (auto simp: selectTimestamp_query_def unapplied_from_def hlc_tuple_def filter_empty_conv take_Suc
      sort_key_Nil_iff split: list.splits)

lemma selectTimestamp_query_Cons:
  assumes "selectTimestamp_query tbl s (Nanos after) (Logical after) = r # rest"
  shows "row_tuple r \<in> unapplied_from tbl s after"
    and "\<And>c. c \<in> unapplied_from tbl s after \<Longrightarrow> row_tuple r \<le> c"
proof -
  note M = take1_sorted_min [OF assms [unfolded selectTimestamp_query_def]]
  show "row_tuple r \<in> unapplied_from tbl s after"
    using M by (auto simp: unapplied_from_def hlc_tuple_def)
  show "row_tuple r \<le> c" if "c \<in> unapplied_from tbl s after" for c
    using M that by (auto simp: unapplied_from_def hlc_tuple_def)
qed

text \<open>
  C5. When the query succeeds, \<open>selectTimestamp\<close> either returns, without error, a
  timestamp that is the tuple of a row of the schema with \<open>target_applied_at\<close> null and not
  below \<open>after\<close>, and that is least among these tuples; or it returns the zero time with
  the sentinel \<open>errNoWork\<close>, and then there is no such row. A failure of the query is
  returned as that failure, which is not the sentinel.
\<close>

theorem selectTimestamp_least:
  "(case selectTimestamp None tbl sch after of
      (t, None) \<Rightarrow> hlc_tuple t \<in> unapplied_from tbl sch after
                    \<and> (\<forall>c\<in>unapplied_from tbl sch after. hlc_tuple t \<le> c)
    | (t, Some e) \<Rightarrow> t = hlc_Zero \<and> e = errNoWork \<and> unapplied_from tbl sch after = {})
   \<and> selectTimestamp (Some msg) tbl sch after = (hlc_Zero, Some (Failure msg))"
proof (cases "selectTimestamp_query tbl sch (Nanos after) (Logical after)")
  case Nil
  then show ?thesis
    using selectTimestamp_query_Nil [of tbl sch after]
    by (simp add: selectTimestamp_def)
next
  case (Cons r rest)
  note C = selectTimestamp_query_Cons [OF Cons]
  have "hlc_tuple (hlc_New (source_nanos r) (source_logical r)) = row_tuple r"
    by (simp add: hlc_tuple_def hlc_New_def row_tuple_def)
  with Cons C show ?thesis
    by (simp add: selectTimestamp_def)
qed

theorem selectTimestamp_least_witness:
  "selectTimestamp None (rows ex_store) ''a'' (hlc_New 5 0) = (hlc_New 7 1, None)
   \<and> selectTimestamp None (rows ex_store) ''a'' (hlc_New 7 2) = (hlc_Zero, Some errNoWork)"
  using selectTimestamp_least [of "rows ex_store" "''a''" "hlc_New 5 0"]
    selectTimestamp_least [of "rows ex_store" "''a''" "hlc_New 7 2"]
  by (simp add: selectTimestamp_def selectTimestamp_query_def ex_store_def ex_row_def row_tuple_def
      hlc_New_def hlc_Zero_def)

subsection \<open>Traces of a flush\<close>

lemma last_written_Nil: "last_written p [] = p"
  by (simp add: last_written_def)

lemma last_written_append: "last_written p (a @ b) = last_written (last_written p a) b"
  by (simp add: last_written_def last_append)

lemma ext_refl: "ext w w []"
  by (simp add: ext_def last_written_Nil)

lemma ext_trans: "ext w w1 a \<Longrightarrow> ext w1 w2 b \<Longrightarrow> ext w w2 (a @ b)"
  by (simp add: ext_def last_written_append)

lemma invoke_ext: "invoke c w = (out, w') \<Longrightarrow> ext w w' [(c, out)]"
  by (cases c) (auto simp: invoke_def ext_def last_written_def written_def Let_def)

lemma invoke_all_None:
  "invoke_all cs w = (None, w') \<Longrightarrow> ext w w' (succeeded cs)"
proof (induction cs arbitrary: w)
  case Nil
  then show ?case by (simp add: succeeded_def ext_refl)
next
  case (Cons c cs)
  obtain out w1 where i: "invoke c w = (out, w1)" by (cases "invoke c w")
  with Cons.prems have out: "out = None" and rest: "invoke_all cs w1 = (None, w')"
    by (auto split: option.splits)
  from ext_trans [OF invoke_ext [OF i] Cons.IH [OF rest]] out
  show ?case by (simp add: succeeded_def)
qed

lemma invoke_all_Some:
  "invoke_all cs w = (Some e, w') \<Longrightarrow>
     \<exists>pre c post. cs = pre @ c # post \<and> ext w w' (succeeded pre @ [(c, Some e)])"
proof (induction cs arbitrary: w)
  case Nil
  then show ?case by simp
next
  case (Cons c cs)
  obtain out w1 where i: "invoke c w = (out, w1)" by (cases "invoke c w")
  show ?case
  proof (cases out)
    case (Some e')
    with i Cons.prems have "e' = e" "w1 = w'" by auto
    with invoke_ext [OF i] Some have "ext w w' (succeeded [] @ [(c, Some e)])"
      by (simp add: succeeded_def)
    then show ?thesis by (metis append_Nil)
  next
    case None
    with i Cons.prems have rest: "invoke_all cs w1 = (Some e, w')" by simp
    from Cons.IH [OF rest] obtain pre c' post where
      cs: "cs = pre @ c' # post" and e: "ext w1 w' (succeeded pre @ [(c', Some e)])" by blast
    from ext_trans [OF invoke_ext [OF i] e] None
    have "ext w w' (succeeded (c # pre) @ [(c', Some e)])" by (simp add: succeeded_def)
    moreover have "c # cs = (c # pre) @ c' # post" using cs by simp
    ultimately show ?thesis by blast
  qed
qed

lemma flush_tables_invoke_all:
  "flush_tables source tables ta w = invoke_all (data_calls source tables ta) w"
  by (induction tables arbitrary: w) (auto simp: data_calls_def split: prod.splits option.splits)

lemma data_calls_append:
  "data_calls source (a @ b) ta = data_calls source a ta @ data_calls source b ta"
  by (simp add: data_calls_def)

lemma invoke_all_append:
  "invoke_all (a @ b) w =
     (case invoke_all a w of (Some err, w') \<Rightarrow> (Some err, w') | (None, w') \<Rightarrow> invoke_all b w')"
  by (induction a arbitrary: w) (auto split: prod.splits option.splits)

lemma flush_groups_invoke_all:
  "flush_groups source targets ta w = invoke_all (data_calls source (concat targets) ta) w"
  by (induction targets arbitrary: w)
     (auto simp: data_calls_def [of _ "[]"] data_calls_append invoke_all_append flush_tables_invoke_all
           split: prod.splits option.splits)

lemma flush_body_eq:
  "flush_body D source targets cursor s ta final w =
     (case invoke_all (body_calls D source targets cursor s ta final) w of
        (Some e, w') \<Rightarrow> (Inl e, w')
      | (None, w') \<Rightarrow> (flush_result D cursor s final, w'))"
  by (auto simp: flush_body_def body_calls_def final_calls_def flush_result_def
        flush_groups_invoke_all invoke_all_append
      split: prod.splits option.splits sum.splits)

lemma flush_cases:
  assumes "flush D source targets cursor s ta final w = (res, w')"
  shows "(\<exists>e. res = Inl e \<and> ext w w' [(OnBegin, Some e)])
       \<or> (\<exists>e pre c post out. res = Inl e
             \<and> body_calls D source targets cursor s ta final = pre @ c # post
             \<and> ext w w' ((OnBegin, None) # succeeded pre @ [(c, Some e), (OnRollback, out)]))
       \<or> (\<exists>out. res = flush_result D cursor s final
             \<and> ext w w' ((OnBegin, None) # succeeded (body_calls D source targets cursor s ta final)
                          @ [(OnRollback, out)]))"
proof -
  let ?cs = "body_calls D source targets cursor s ta final"
  obtain o1 w1 where b: "invoke OnBegin w = (o1, w1)" by (cases "invoke OnBegin w")
  note eb = invoke_ext [OF b]
  show ?thesis
  proof (cases o1)
    case (Some e)
    with assms b have "res = Inl e" "w' = w1" by (auto simp: flush_def)
    with eb Some show ?thesis by blast
  next
    case None
    obtain o2 w2 where a: "invoke_all ?cs w1 = (o2, w2)" by (cases "invoke_all ?cs w1")
    obtain o3 w3 where r: "invoke OnRollback w2 = (o3, w3)" by (cases "invoke OnRollback w2")
    note er = invoke_ext [OF r]
    from assms b None a r have w': "w' = w3"
      and res: "res = (case o2 of Some e \<Rightarrow> Inl e | None \<Rightarrow> flush_result D cursor s final)"
      by (auto simp: flush_def flush_body_eq split: option.splits)
    show ?thesis
    proof (cases o2)
      case o2: None
      from ext_trans [OF ext_trans [OF eb invoke_all_None [OF a [unfolded o2]]] er] None
      have "ext w w' ((OnBegin, None) # succeeded ?cs @ [(OnRollback, o3)])"
        using w' by simp
      with res o2 show ?thesis by auto
    next
      case o2: (Some e)
      from invoke_all_Some [OF a [unfolded o2]] obtain pre c post where
        cs: "?cs = pre @ c # post" and e: "ext w1 w2 (succeeded pre @ [(c, Some e)])" by blast
      from ext_trans [OF ext_trans [OF eb e] er] None
      have "ext w w' ((OnBegin, None) # succeeded pre @ [(c, Some e), (OnRollback, o3)])"
        using w' by simp
      with res o2 cs show ?thesis by auto
    qed
  qed
qed

lemma clean_succeeded: "clean (succeeded cs)"
  by (auto simp: clean_def succeeded_def)

lemma clean_append: "clean (a @ b) \<longleftrightarrow> clean a \<and> clean b"
  by (auto simp: clean_def)

lemma clean_Cons: "clean (x # a) \<longleftrightarrow> (fst x \<noteq> OnRollback \<longrightarrow> snd x = None) \<and> clean a"
  by (auto simp: clean_def)

lemma clean_Nil: "clean []"
  by (simp add: clean_def)

lemma body_calls_no_rollback: "OnRollback \<notin> set (body_calls D source targets cursor s ta final)"
  by (auto simp: body_calls_def data_calls_def final_calls_def split: sum.splits)

lemma fail_shape_prepend: "clean a \<Longrightarrow> fail_shape e b \<Longrightarrow> fail_shape e (a @ b)"
  unfolding fail_shape_def
proof (elim exE conjE)
  fix pre c post
  assume "clean a" "b = pre @ (c, Some e) # post" "clean pre" "c \<noteq> OnRollback"
    "post = [] \<or> (\<exists>out. post = [(OnRollback, out)])"
  then have "a @ b = (a @ pre) @ (c, Some e) # post \<and> clean (a @ pre) \<and> c \<noteq> OnRollback \<and>
        (post = [] \<or> (\<exists>out. post = [(OnRollback, out)]))"
    by (simp add: clean_append)
  then show "\<exists>pre c post. a @ b = pre @ (c, Some e) # post \<and> clean pre \<and> c \<noteq> OnRollback \<and>
        (post = [] \<or> (\<exists>out. post = [(OnRollback, out)]))" by blast
qed

lemma good_prepend: "clean a \<Longrightarrow> good res b \<Longrightarrow> good res (a @ b)"
  by (auto simp: good_def clean_append fail_shape_prepend split: option.splits)

lemma flush_good:
  assumes "flush D source targets cursor s ta final w = (res, w')"
  shows "\<exists>tr. ext w w' tr \<and> good (err_of res) tr \<and> (\<forall>s'. res = Inr s' \<longrightarrow> clean tr)"
proof -
  let ?cs = "body_calls D source targets cursor s ta final"
  from flush_cases [OF assms] consider
    (at_begin) e where "res = Inl e" "ext w w' [(OnBegin, Some e)]"
  | (in_body) e pre c post out where "res = Inl e" "?cs = pre @ c # post"
      "ext w w' ((OnBegin, None) # succeeded pre @ [(c, Some e), (OnRollback, out)])"
  | (complete) out where "res = flush_result D cursor s final"
      "ext w w' ((OnBegin, None) # succeeded ?cs @ [(OnRollback, out)])"
    by blast
  then show ?thesis
  proof cases
    case at_begin
    have "fail_shape e ([] @ (OnBegin, Some e) # [])"
      unfolding fail_shape_def using clean_Nil by blast
    with at_begin show ?thesis by (auto simp: good_def err_of_def)
  next
    case in_body
    have "c \<in> set ?cs" using in_body(2) by simp
    with body_calls_no_rollback have c: "c \<noteq> OnRollback" by metis
    have "clean ((OnBegin, None) # succeeded pre)"
      by (simp add: clean_Cons clean_succeeded)
    with c have "fail_shape e (((OnBegin, None) # succeeded pre) @ (c, Some e) # [(OnRollback, out)])"
      unfolding fail_shape_def by blast
    with in_body show ?thesis by (auto simp: good_def err_of_def)
  next
    case complete
    have "clean ((OnBegin, None) # succeeded ?cs @ [(OnRollback, out)])"
      by (simp add: clean_Cons clean_append clean_succeeded clean_Nil)
    with complete show ?thesis by (auto simp: good_def err_of_def split: sum.splits)
  qed
qed

lemma callback_good:
  assumes "callback D r cursor tbl mut st w = (res, w')"
  shows "\<exists>tr. ext w w' tr \<and> good (err_of res) tr \<and> (\<forall>s'. res = Inr s' \<longrightarrow> clean tr)"
proof (cases "needsFlush (cfg r) st mut")
  case False
  with assms have "w' = w" "\<exists>s'. res = Inr s'" by (auto simp: callback_def)
  then have "ext w w' [] \<and> good (err_of res) [] \<and> (\<forall>s'. res = Inr s' \<longrightarrow> clean [])"
    using ext_refl clean_Nil by (auto simp: good_def err_of_def)
  then show ?thesis by blast
next
  case True
  obtain fr w1 where f: "flush D (SourceName D (target r)) (Order r) cursor (rs st) (toApply st) False w = (fr, w1)"
    by (cases "flush D (SourceName D (target r)) (Order r) cursor (rs st) (toApply st) False w")
  from flush_good [OF f] obtain tr where tr: "ext w w1 tr" "good (err_of fr) tr" "\<forall>s'. fr = Inr s' \<longrightarrow> clean tr"
    by blast
  from assms True f have "w' = w1" "err_of res = err_of fr" "(\<exists>s'. res = Inr s') = (\<exists>s'. fr = Inr s')"
    by (auto simp: callback_def err_of_def split: sum.splits)
  with tr show ?thesis by auto
qed

lemma SelectMany_good:
  assumes "SelectMany (callback D r) cursor items sm_err st w = (res, w')"
  shows "\<exists>tr. ext w w' tr \<and> good (err_of res) tr \<and> (\<forall>s'. res = Inr s' \<longrightarrow> clean tr)"
  using assms
proof (induction items arbitrary: st w)
  case Nil
  then have "w' = w" by (auto split: option.splits)
  then have "ext w w' [] \<and> good (err_of res) [] \<and> (\<forall>s'. res = Inr s' \<longrightarrow> clean [])"
    using ext_refl clean_Nil by (cases "err_of res") (auto simp: good_def)
  then show ?case by blast
next
  case (Cons it items)
  obtain off tbl mut where it: "it = (off, tbl, mut)" by (cases it) auto
  obtain cr w1 where c: "callback D r (at_offsets cursor off) tbl mut st w = (cr, w1)"
    by (cases "callback D r (at_offsets cursor off) tbl mut st w")
  from callback_good [OF c] obtain tr1 where tr1: "ext w w1 tr1" "good (err_of cr) tr1"
    "\<forall>s'. cr = Inr s' \<longrightarrow> clean tr1" by blast
  show ?case
  proof (cases cr)
    case (Inl e)
    with Cons.prems it c have "res = Inl e" "w' = w1" by auto
    with tr1 Inl show ?thesis by auto
  next
    case (Inr st1)
    with Cons.prems it c have rest: "SelectMany (callback D r) cursor items sm_err st1 w1 = (res, w')"
      by simp
    from Cons.IH [OF rest] obtain tr2 where tr2: "ext w1 w' tr2" "good (err_of res) tr2"
      "\<forall>s'. res = Inr s' \<longrightarrow> clean tr2" by blast
    from tr1 Inr have c1: "clean tr1" by simp
    have "ext w w' (tr1 @ tr2)" using ext_trans [OF tr1(1) tr2(1)] .
    moreover have "good (err_of res) (tr1 @ tr2)" using good_prepend [OF c1 tr2(2)] .
    moreover have "\<forall>s'. res = Inr s' \<longrightarrow> clean (tr1 @ tr2)" using c1 tr2(3) by (simp add: clean_append)
    ultimately show ?thesis by blast
  qed
qed

lemma process_good:
  assumes "process D r items sm_err s0 w = (res, w')"
  shows "\<exists>tr. ext w w' tr \<and> good res tr"
proof (cases "length (Order r) = 0")
  case True
  with assms have "w' = w" "res = Some (errNoTables (target r))" by (auto simp: process_def)
  then have "ext w w' [] \<and> good res []" using ext_refl clean_Nil by (auto simp: good_def)
  then show ?thesis by blast
next
  case False
  let ?cursor = "\<lparr>Start = CommittedTime s0, End = ProposedTime s0, Targets = Order r,
                        Limit = SelectBatchSize (cfg r), cBackfill = Backfill s0,
                        cOffsetKey = OffsetKey s0, cOffsetTable = OffsetTable s0,
                        cOffsetTime = OffsetTime s0\<rparr>"
  let ?st0 = "\<lparr>epoch = hlc_Zero, flushCounter = 0, toApply = [], total = 0, rs = s0\<rparr>"
  obtain sr w1 where sm: "SelectMany (callback D r) ?cursor items sm_err ?st0 w = (sr, w1)"
    by (cases "SelectMany (callback D r) ?cursor items sm_err ?st0 w")
  from SelectMany_good [OF sm] obtain tr1 where tr1: "ext w w1 tr1" "good (err_of sr) tr1"
    "\<forall>s'. sr = Inr s' \<longrightarrow> clean tr1" by blast
  show ?thesis
  proof (cases sr)
    case (Inl e)
    with assms False sm have "res = Some e" "w' = w1" by (auto simp: process_def Let_def)
    with tr1 Inl show ?thesis by (auto simp: err_of_def)
  next
    case (Inr st)
    let ?c = "if items = [] then ?cursor else at_offsets ?cursor (fst (last items))"
    obtain fr w2 where f: "flush D (SourceName D (target r)) (Order r) ?c (rs st) (toApply st) True w1 = (fr, w2)"
      by (cases "flush D (SourceName D (target r)) (Order r) ?c (rs st) (toApply st) True w1")
    from flush_good [OF f] obtain tr2 where tr2: "ext w1 w2 tr2" "good (err_of fr) tr2" by blast
    from assms False sm Inr f have "w' = w2" "res = err_of fr"
      by (auto simp: process_def Let_def err_of_def split: sum.splits)
    moreover from tr1 Inr have "clean tr1" by simp
    ultimately show ?thesis
      using ext_trans [OF tr1(1) tr2(1)] good_prepend [OF _ tr2(2)] by blast
  qed
qed

subsection \<open>A failing flush\<close>

lemma written_failed: "written (c, Some e) = []"
  by (cases c) (simp_all add: written_def)

lemma written_rollback: "written (OnRollback, out) = []"
  by (simp add: written_def)

lemma last_written_unchanged:
  "concat (map written b) = [] \<Longrightarrow> last_written p (a @ b) = last_written p a"
  by (simp add: last_written_def)

lemma split_unique:
  assumes eq: "pre @ x # post = pre' @ x' # post'"
    and "x \<notin> set pre'" and "x \<notin> set post'"
  shows "pre = pre' \<and> x = x' \<and> post = post'"
proof -
  from eq obtain us where
    "(pre = pre' @ us \<and> us @ x # post = x' # post') \<or> (pre @ us = pre' \<and> x # post = us @ x' # post')"
    by (auto simp: append_eq_append_conv2)
  then show ?thesis
  proof
    assume a: "pre = pre' @ us \<and> us @ x # post = x' # post'"
    show ?thesis
    proof (cases us)
      case Nil
      with a show ?thesis by simp
    next
      case (Cons u us')
      with a have "us' @ x # post = post'" by simp
      then have "x \<in> set post'" by auto
      with assms(3) show ?thesis by simp
    qed
  next
    assume a: "pre @ us = pre' \<and> x # post = us @ x' # post'"
    show ?thesis
    proof (cases us)
      case Nil
      with a show ?thesis by simp
    next
      case (Cons u us')
      with a have "u = x" by simp
      with a Cons have "x \<in> set pre'" by auto
      with assms(2) show ?thesis by simp
    qed
  qed
qed

text \<open>
  C3. If in a run of \<open>process\<close> a call of \<open>OnBegin\<close>, \<open>OnData\<close>, \<open>OnCommit\<close>, \<open>Record\<close> or
  \<open>SetConsistentPoint\<close> (any call but the deferred rollback) fails with an error, then
  \<open>process\<close> returns that error, makes no call after it but the deferred rollback of the
  batch, and the persisted consistent point is the stamp of the last successful
  \<open>SetConsistentPoint\<close> before the failing call, or the point persisted before the run
  when there was none: the failing flush advances nothing.
\<close>

theorem process_flush_failure:
  assumes run: "process D r items sm_err s0 w = (res, w')"
    and tr: "trace w' = trace w @ pre @ (c, Some e) # post"
    and c: "c \<noteq> OnRollback"
  shows "res = Some e \<and> (post = [] \<or> (\<exists>out. post = [(OnRollback, out)]))
         \<and> point w' = last_written (point w) pre"
proof -
  from process_good [OF run] obtain t where t: "ext w w' t" "good res t" by blast
  from t(1) tr have teq: "t = pre @ (c, Some e) # post" by (simp add: ext_def)
  have nc: "\<not> clean t" unfolding teq clean_def using c by auto
  with t(2) obtain e' where res: "res = Some e'" and fs: "fail_shape e' t"
    by (auto simp: good_def split: option.splits)
  from fs obtain pre' c' post' where
    sh: "t = pre' @ (c', Some e') # post'" "clean pre'" "c' \<noteq> OnRollback"
      "post' = [] \<or> (\<exists>out. post' = [(OnRollback, out)])"
    unfolding fail_shape_def by blast
  have "(c, Some e) \<notin> set pre'" using sh(2) c by (auto simp: clean_def)
  moreover have "(c, Some e) \<notin> set post'" using sh(4) c by auto
  ultimately have u: "pre = pre' \<and> (c, Some e) = (c', Some e') \<and> post = post'"
    using split_unique [of pre "(c, Some e)" post pre' "(c', Some e')" post'] teq sh(1) by simp
  have w0: "concat (map written ((c, Some e) # post)) = []"
    using u sh(4) by (auto simp: written_failed written_rollback)
  have "point w' = last_written (point w) t" using t(1) by (simp add: ext_def)
  also have "\<dots> = last_written (point w) pre" unfolding teq by (rule last_written_unchanged [OF w0])
  finally show ?thesis using res u sh(4) by simp
qed

theorem process_flush_failure_witness:
  "fst (process ex_deps ex_resolver
          [ex_item ''c'' ''a'' 1, ex_item ''p'' ''b'' 1, ex_item ''c'' ''d'' 2] None ex_stamp
          (ex_world [None, None, None, None, None, None, None, Some ctxErr])) = Some ctxErr
   \<and> point (snd (process ex_deps ex_resolver
          [ex_item ''c'' ''a'' 1, ex_item ''p'' ''b'' 1, ex_item ''c'' ''d'' 2] None ex_stamp
          (ex_world [None, None, None, None, None, None, None, Some ctxErr])))
       = ex_stamp\<lparr>OffsetKey := ''d'', OffsetTable := ''c'', OffsetTime := hlc_New 2 0\<rparr>"
proof -
  let ?p = "ex_stamp\<lparr>OffsetKey := ''d'', OffsetTable := ''c'', OffsetTime := hlc_New 2 0\<rparr>"
  let ?pre = "[(OnBegin, None),
               (OnData ''s'' ''p'' [AddMeta ''cdc'' ''p'' (ex_mut ''b'' 1)], None),
               (OnData ''s'' ''c'' [AddMeta ''cdc'' ''c'' (ex_mut ''a'' 1)], None),
               (OnCommit, None),
               (SetConsistentPoint ?p, None),
               (OnRollback, None),
               (OnBegin, None)]"
  let ?c = "OnData ''s'' ''c'' [AddMeta ''cdc'' ''c'' (ex_mut ''d'' 2)]"
  let ?w = "ex_world [None, None, None, None, None, None, None, Some ctxErr]"
  let ?w' = "\<lparr>trace = ?pre @ (?c, Some ctxErr) # [(OnRollback, None)], point = ?p, sched = []\<rparr>"
  have run: "process ex_deps ex_resolver
      [ex_item ''c'' ''a'' 1, ex_item ''p'' ''b'' 1, ex_item ''c'' ''d'' 2] None ex_stamp ?w
      = (Some ctxErr, ?w')"
    by (simp add: process_def callback_def flush_def flush_body_def invoke_def needsFlush_def
        ex_deps_def ex_resolver_def ex_cfg_def ex_item_def ex_world_def ex_stamp_def ex_mut_def
        at_offsets_def GetZero_def Put_def reset_def AddMeta_def NewProgress_def
        hlc_Compare_def hlc_New_def hlc_Zero_def Let_def)
  have tr: "trace ?w' = trace ?w @ ?pre @ (?c, Some ctxErr) # [(OnRollback, None)]"
    by (simp add: ex_world_def)
  have c: "?c \<noteq> OnRollback" by simp
  from process_flush_failure [OF run tr c]
  have "point ?w' = last_written (point ?w) ?pre" by simp
  then show ?thesis unfolding run by (simp add: last_written_def written_def)
qed

subsection \<open>An empty schema\<close>

text \<open>
  C8. If the watcher's table order is empty, \<open>process\<close> returns the error that names the
  schema and leaves the world as it was: it makes no call at all (no \<open>OnBegin\<close>, \<open>OnData\<close>,
  \<open>Record\<close> or \<open>SetConsistentPoint\<close>), whatever the stager would have delivered.
\<close>

theorem process_empty_order:
  "Order r = [] \<Longrightarrow> process D r items sm_err s0 w = (Some (errNoTables (target r)), w)"
  by (simp add: process_def)

theorem process_empty_order_witness:
  "process ex_deps (ex_resolver\<lparr>Order := []\<rparr>) [ex_item ''c'' ''a'' 1] None ex_stamp (ex_world [])
     = (Some (errNoTables ''s''), ex_world [])"
  using process_empty_order [of "ex_resolver\<lparr>Order := []\<rparr>" ex_deps "[ex_item ''c'' ''a'' 1]" None ex_stamp "ex_world []"]
  by (simp add: ex_resolver_def)

subsection \<open>The order of calls within a flush\<close>

lemma data_calls_all: "\<forall>c\<in>set (data_calls source tables ta). is_OnData c"
  by (auto simp: data_calls_def)

lemma final_calls_none: "\<forall>c\<in>set (final_calls D cursor s final). \<not> is_OnData c"
  by (auto simp: final_calls_def split: sum.splits)

lemma filter_succeeded: "filter is_OnData (map fst (succeeded cs)) = filter is_OnData cs"
  by (simp add: succeeded_def comp_def)

lemma filter_all: "\<forall>c\<in>set cs. is_OnData c \<Longrightarrow> filter is_OnData cs = cs"
  by (induction cs) auto

lemma filter_none: "\<forall>c\<in>set cs. \<not> is_OnData c \<Longrightarrow> filter is_OnData cs = []"
  by (induction cs) auto

lemma split_after: "X @ Y = a @ z # b \<Longrightarrow> z \<notin> set X \<Longrightarrow> set X \<subseteq> set a"
proof -
  assume eq: "X @ Y = a @ z # b" and z: "z \<notin> set X"
  from eq obtain us where "(X = a @ us \<and> us @ Y = z # b) \<or> (X @ us = a \<and> Y = us @ z # b)"
    by (auto simp: append_eq_append_conv2)
  then show ?thesis
  proof
    assume a: "X = a @ us \<and> us @ Y = z # b"
    show ?thesis
    proof (cases us)
      case Nil with a show ?thesis by simp
    next
      case (Cons u us')
      with a have "z \<in> set X" by auto
      with z show ?thesis by simp
    qed
  next
    assume "X @ us = a \<and> Y = us @ z # b"
    then show ?thesis by auto
  qed
qed

text \<open>The four ways a flush can go, by the call that failed.\<close>

lemma flush_shape:
  assumes "flush D source targets cursor s ta final w = (res, w')"
  shows "\<exists>tr. ext w w' tr \<and>
    ((\<exists>e. tr = [(OnBegin, Some e)])
     \<or> (\<exists>d1 c d2 e out. data_calls source (concat targets) ta = d1 @ c # d2
           \<and> tr = (OnBegin, None) # succeeded d1 @ [(c, Some e), (OnRollback, out)])
     \<or> (\<exists>e out. tr = (OnBegin, None) # succeeded (data_calls source (concat targets) ta)
                        @ [(OnCommit, Some e), (OnRollback, out)])
     \<or> (\<exists>rest. tr = ((OnBegin, None) # succeeded (data_calls source (concat targets) ta)
                        @ [(OnCommit, None)]) @ rest
           \<and> fst ` set rest \<subseteq> set (final_calls D cursor s final) \<union> {OnRollback}))"
proof -
  let ?data = "data_calls source (concat targets) ta"
  let ?fin = "final_calls D cursor s final"
  let ?cs = "body_calls D source targets cursor s ta final"
  have cs: "?cs = ?data @ OnCommit # ?fin" by (simp add: body_calls_def)
  from flush_cases [OF assms] consider
    (at_begin) e where "res = Inl e" "ext w w' [(OnBegin, Some e)]"
  | (in_body) e pre c post out where "res = Inl e" "?cs = pre @ c # post"
      "ext w w' ((OnBegin, None) # succeeded pre @ [(c, Some e), (OnRollback, out)])"
  | (complete) out where "res = flush_result D cursor s final"
      "ext w w' ((OnBegin, None) # succeeded ?cs @ [(OnRollback, out)])"
    by blast
  then show ?thesis
  proof cases
    case at_begin
    then show ?thesis by blast
  next
    case complete
    let ?rest = "succeeded ?fin @ [(OnRollback, out)]"
    have "(OnBegin, None) # succeeded ?cs @ [(OnRollback, out)]
        = ((OnBegin, None) # succeeded ?data @ [(OnCommit, None)]) @ ?rest"
      by (simp add: cs succeeded_def)
    moreover have "fst ` set ?rest \<subseteq> set ?fin \<union> {OnRollback}"
      by (auto simp: succeeded_def)
    ultimately show ?thesis using complete(2) by metis
  next
    case in_body
    from in_body(2) cs obtain us where
      "(?data = pre @ us \<and> us @ OnCommit # ?fin = c # post) \<or> (?data @ us = pre \<and> OnCommit # ?fin = us @ c # post)"
      by (auto simp: append_eq_append_conv2)
    then show ?thesis
    proof
      assume a: "?data = pre @ us \<and> us @ OnCommit # ?fin = c # post"
      show ?thesis
      proof (cases us)
        case Nil
        with a have "pre = ?data" "c = OnCommit" by simp_all
        with in_body(3) show ?thesis by blast
      next
        case (Cons u us')
        with a have "?data = pre @ c # us'" by simp
        with in_body(3) show ?thesis by blast
      qed
    next
      assume a: "?data @ us = pre \<and> OnCommit # ?fin = us @ c # post"
      show ?thesis
      proof (cases us)
        case Nil
        with a have "pre = ?data" "c = OnCommit" by simp_all
        with in_body(3) show ?thesis by blast
      next
        case (Cons u us')
        with a have u: "u = OnCommit" and fin: "?fin = us' @ c # post" and pre: "pre = ?data @ OnCommit # us'"
          by auto
        let ?rest = "succeeded us' @ [(c, Some e), (OnRollback, out)]"
        have "(OnBegin, None) # succeeded pre @ [(c, Some e), (OnRollback, out)]
            = ((OnBegin, None) # succeeded ?data @ [(OnCommit, None)]) @ ?rest"
          by (simp add: pre succeeded_def)
        moreover have "fst ` set ?rest \<subseteq> set ?fin \<union> {OnRollback}"
          unfolding fin by (auto simp: succeeded_def)
        ultimately show ?thesis using in_body(3) by metis
      qed
    qed
  qed
qed

lemma flush_calls_prefix:
  assumes "flush D source targets cursor s ta final w = (res, w')"
  shows "\<exists>tr. trace w' = trace w @ tr
    \<and> (\<exists>n. filter is_OnData (map fst tr)
            = take n (map (\<lambda>tbl. OnData source tbl (GetZero ta tbl))
                        (filter (\<lambda>tbl. GetZero ta tbl \<noteq> []) (concat targets))))
    \<and> (OnCommit \<in> fst ` set tr \<longrightarrow>
          filter is_OnData (map fst tr)
            = map (\<lambda>tbl. OnData source tbl (GetZero ta tbl))
                (filter (\<lambda>tbl. GetZero ta tbl \<noteq> []) (concat targets)))
    \<and> (\<forall>a s' out b. tr = a @ (SetConsistentPoint s', out) # b \<longrightarrow> (OnCommit, None) \<in> set a)
    \<and> (distinct (concat targets) \<longrightarrow> distinct (filter is_OnData (map fst tr)))"
proof -
  let ?data = "data_calls source (concat targets) ta"
  let ?fin = "final_calls D cursor s final"
  have data: "map (\<lambda>tbl. OnData source tbl (GetZero ta tbl))
                (filter (\<lambda>tbl. GetZero ta tbl \<noteq> []) (concat targets)) = ?data"
    by (simp add: data_calls_def)
  note all = data_calls_all [of source "concat targets" ta]
  from flush_shape [OF assms] obtain tr where e: "ext w w' tr" and sh:
    "(\<exists>e. tr = [(OnBegin, Some e)])
     \<or> (\<exists>d1 c d2 e out. ?data = d1 @ c # d2
           \<and> tr = (OnBegin, None) # succeeded d1 @ [(c, Some e), (OnRollback, out)])
     \<or> (\<exists>e out. tr = (OnBegin, None) # succeeded ?data @ [(OnCommit, Some e), (OnRollback, out)])
     \<or> (\<exists>rest. tr = ((OnBegin, None) # succeeded ?data @ [(OnCommit, None)]) @ rest
           \<and> fst ` set rest \<subseteq> set ?fin \<union> {OnRollback})"
    by blast
  have tr: "trace w' = trace w @ tr" using e by (simp add: ext_def)
  from sh consider
    (c1) e where "tr = [(OnBegin, Some e)]"
  | (c2) d1 c d2 e out where "?data = d1 @ c # d2"
      "tr = (OnBegin, None) # succeeded d1 @ [(c, Some e), (OnRollback, out)]"
  | (c3) e out where "tr = (OnBegin, None) # succeeded ?data @ [(OnCommit, Some e), (OnRollback, out)]"
  | (c4) rest where "tr = ((OnBegin, None) # succeeded ?data @ [(OnCommit, None)]) @ rest"
      "fst ` set rest \<subseteq> set ?fin \<union> {OnRollback}"
    by blast
  then have parts: "(\<exists>n. filter is_OnData (map fst tr) = take n ?data)
    \<and> (OnCommit \<in> fst ` set tr \<longrightarrow> filter is_OnData (map fst tr) = ?data)
    \<and> (\<forall>a s' out b. tr = a @ (SetConsistentPoint s', out) # b \<longrightarrow> (OnCommit, None) \<in> set a)"
  proof cases
    case c1
    have "filter is_OnData (map fst tr) = take 0 ?data" using c1 by simp
    moreover have "OnCommit \<notin> fst ` set tr" using c1 by simp
    moreover have "\<forall>a s' out b. tr \<noteq> a @ (SetConsistentPoint s', out) # b"
      unfolding c1 by (auto simp: Cons_eq_append_conv)
    ultimately show ?thesis by blast
  next
    case c2
    have d: "\<forall>x\<in>set (d1 @ [c]). is_OnData x" using all c2(1) by simp
    have "map fst tr = OnBegin # (d1 @ [c]) @ [OnRollback]"
      by (simp add: c2(2) succeeded_def comp_def)
    moreover have "filter is_OnData d1 = d1" using d by (simp add: filter_all)
    moreover have "is_OnData c" using d by simp
    ultimately have f: "filter is_OnData (map fst tr) = d1 @ [c]" by simp
    have "d1 @ [c] = take (Suc (length d1)) ?data" using c2(1) by simp
    with f have p1: "\<exists>n. filter is_OnData (map fst tr) = take n ?data" by metis
    have calls: "fst ` set tr = insert OnBegin (insert OnRollback (set (d1 @ [c])))"
      by (auto simp: c2(2) succeeded_def image_iff)
    have p2: "OnCommit \<notin> fst ` set tr" using d calls by auto
    have p3: "\<forall>a s' out b. tr \<noteq> a @ (SetConsistentPoint s', out) # b"
    proof (intro allI notI)
      fix a s' out' b assume "tr = a @ (SetConsistentPoint s', out') # b"
      then have "SetConsistentPoint s' \<in> fst ` set tr" by (metis fst_conv image_eqI in_set_conv_decomp)
      with calls d show False by auto
    qed
    from p1 p2 p3 show ?thesis by blast
  next
    case c3
    have f: "filter is_OnData (map fst tr) = ?data"
      using filter_all [OF all] by (simp add: c3 succeeded_def comp_def)
    then have p1: "\<exists>n. filter is_OnData (map fst tr) = take n ?data" by (metis take_all order_refl)
    have calls: "fst ` set tr = insert OnBegin (insert OnRollback (insert OnCommit (set ?data)))"
      by (auto simp: c3 succeeded_def image_iff)
    have p3: "\<forall>a s' out b. tr \<noteq> a @ (SetConsistentPoint s', out) # b"
    proof (intro allI notI)
      fix a s' out' b assume "tr = a @ (SetConsistentPoint s', out') # b"
      then have "SetConsistentPoint s' \<in> fst ` set tr" by (metis fst_conv image_eqI in_set_conv_decomp)
      with calls all show False by auto
    qed
    from p1 f p3 show ?thesis by blast
  next
    case c4
    let ?X = "(OnBegin, None) # succeeded ?data @ [(OnCommit, None)]"
    have nr: "\<forall>x\<in>set (map fst rest). \<not> is_OnData x"
      using c4(2) final_calls_none [of D cursor s final] by auto
    have f: "filter is_OnData (map fst tr) = ?data"
      using filter_all [OF all] filter_none [OF nr] by (simp add: c4(1) succeeded_def comp_def)
    then have p1: "\<exists>n. filter is_OnData (map fst tr) = take n ?data" by (metis take_all order_refl)
    have p3: "\<forall>a s' out b. tr = a @ (SetConsistentPoint s', out) # b \<longrightarrow> (OnCommit, None) \<in> set a"
    proof (intro allI impI)
      fix a s' out' b assume eq: "tr = a @ (SetConsistentPoint s', out') # b"
      have "(SetConsistentPoint s', out') \<notin> set ?X" using all by (auto simp: succeeded_def)
      with split_after [of ?X rest a "(SetConsistentPoint s', out')" b] eq c4(1)
      have "set ?X \<subseteq> set a" by simp
      then show "(OnCommit, None) \<in> set a" by auto
    qed
    from p1 f p3 show ?thesis by blast
  qed
  then obtain n where n: "filter is_OnData (map fst tr) = take n ?data" by blast
  have "distinct (concat targets) \<longrightarrow> distinct ?data"
    by (auto simp: data_calls_def distinct_map inj_on_def)
  then have once: "distinct (concat targets) \<longrightarrow> distinct (filter is_OnData (map fst tr))"
    unfolding n by simp
  show ?thesis unfolding data
    by (rule exI [of _ tr]) (use tr parts once in blast)
qed

text \<open>With nothing left on the schedule every call succeeds.\<close>

lemma invoke_no_fault:
  "sched w = [] \<Longrightarrow> \<exists>w1. invoke c w = (None, w1) \<and> sched w1 = []"
  by (simp add: invoke_def)

lemma invoke_all_no_faults:
  "sched w = [] \<Longrightarrow> \<exists>w'. invoke_all cs w = (None, w') \<and> sched w' = []"
proof (induction cs arbitrary: w)
  case Nil
  then show ?case by simp
next
  case (Cons c cs)
  from invoke_no_fault [OF Cons.prems] obtain w1 where i: "invoke c w = (None, w1)" "sched w1 = []"
    by blast
  from Cons.IH [OF i(2)] obtain w' where "invoke_all cs w1 = (None, w')" "sched w' = []"
    by blast
  with i(1) show ?case by simp
qed

lemma flush_no_faults:
  assumes "sched w = []"
  shows "fst (flush D source targets cursor s ta final w) = flush_result D cursor s final"
proof -
  from invoke_no_fault [OF assms] obtain w1 where b: "invoke OnBegin w = (None, w1)" "sched w1 = []"
    by blast
  from invoke_all_no_faults [OF b(2)] obtain w2 where
    "invoke_all (body_calls D source targets cursor s ta final) w1 = (None, w2)"
    by blast
  then have "flush_body D source targets cursor s ta final w1 = (flush_result D cursor s final, w2)"
    by (simp add: flush_body_eq)
  with b(1) show ?thesis by (simp add: flush_def)
qed

text \<open>What a flush has done when it returns, by its result.\<close>

lemma flush_outcome_begin:
  assumes "flush D source targets cursor s ta final w = (res, w')"
    and "trace w' = trace w @ tr"
  shows "\<exists>out rest. tr = (OnBegin, out) # rest"
proof -
  from flush_cases [OF assms(1)] obtain t out rest where "ext w w' t" "t = (OnBegin, out) # rest"
    by blast
  with assms(2) show ?thesis by (simp add: ext_def)
qed

lemma flush_outcome_ok:
  assumes "flush D source targets cursor s ta final w = (Inr s', w')"
    and "trace w' = trace w @ tr"
  shows "\<exists>out. tr = (OnBegin, None) # succeeded (data_calls source (concat targets) ta)
                       @ (OnCommit, None) # (if final then [(Record (CommittedTime s'), None)] else [])
                       @ [(SetConsistentPoint s', None), (OnRollback, out)]"
proof -
  let ?cs = "body_calls D source targets cursor s ta final"
  from flush_cases [OF assms(1)] obtain out where r: "Inr s' = flush_result D cursor s final"
    and e: "ext w w' ((OnBegin, None) # succeeded ?cs @ [(OnRollback, out)])"
    by auto
  from e assms(2) have tr: "tr = (OnBegin, None) # succeeded ?cs @ [(OnRollback, out)]"
    by (simp add: ext_def)
  have "?cs = data_calls source (concat targets) ta
      @ OnCommit # (if final then [Record (CommittedTime s')] else []) @ [SetConsistentPoint s']"
    using r [symmetric] by (auto simp: flush_result_def body_calls_def final_calls_def split: if_splits)
  then have "tr = (OnBegin, None) # succeeded (data_calls source (concat targets) ta)
                       @ (OnCommit, None) # (if final then [(Record (CommittedTime s'), None)] else [])
                       @ [(SetConsistentPoint s', None), (OnRollback, out)]"
    unfolding tr by (simp add: succeeded_def)
  then show ?thesis by blast
qed

lemma flush_outcome_err:
  assumes "flush D source targets cursor s ta final w = (Inl e, w')"
    and "trace w' = trace w @ tr"
  shows "(\<exists>c. c \<noteq> OnRollback \<and> (c, Some e) \<in> set tr)
       \<or> (final \<and> NewCommitted D s = Inl e \<and> (OnCommit, None) \<in> set tr)"
proof -
  let ?cs = "body_calls D source targets cursor s ta final"
  from flush_cases [OF assms(1)] consider
    (at_begin) "ext w w' [(OnBegin, Some e)]"
  | (in_body) pre c post out where "?cs = pre @ c # post"
      "ext w w' ((OnBegin, None) # succeeded pre @ [(c, Some e), (OnRollback, out)])"
  | (complete) out where "Inl e = flush_result D cursor s final"
      "ext w w' ((OnBegin, None) # succeeded ?cs @ [(OnRollback, out)])"
    by auto
  then show ?thesis
  proof cases
    case at_begin
    with assms(2) have "tr = [(OnBegin, Some e)]" by (simp add: ext_def)
    then have "OnBegin \<noteq> OnRollback \<and> (OnBegin, Some e) \<in> set tr" by simp
    then show ?thesis by blast
  next
    case in_body
    with assms(2) have "tr = (OnBegin, None) # succeeded pre @ [(c, Some e), (OnRollback, out)]"
      by (simp add: ext_def)
    then have "(c, Some e) \<in> set tr" by simp
    moreover have "c \<in> set ?cs" using in_body(1) by simp
    then have "c \<noteq> OnRollback" using body_calls_no_rollback by metis
    ultimately show ?thesis by blast
  next
    case complete
    with assms(2) have tr: "tr = (OnBegin, None) # succeeded ?cs @ [(OnRollback, out)]"
      by (simp add: ext_def)
    have "(OnCommit, None) \<in> set tr" unfolding tr by (simp add: body_calls_def succeeded_def)
    moreover have "final \<and> NewCommitted D s = Inl e"
      using complete(1) [symmetric] by (auto simp: flush_result_def split: if_splits)
    ultimately show ?thesis by blast
  qed
qed

text \<open>
  C6. A flush begins with \<open>OnBegin\<close>. The \<open>OnData\<close> calls it makes are, in order, an initial
  part of the list that has one call for each table of the watcher's order (the groups in
  order, the tables of a group in order) whose buffer is not empty, with that buffer;
  tables with an empty buffer get no call. Once \<open>OnCommit\<close> has been called, the whole list
  has been called. \<open>SetConsistentPoint\<close> is called only after \<open>OnCommit\<close> has reported
  success. When no table occurs twice in the order, no \<open>OnData\<close> call is made twice.

  A flush that returns without error has made exactly these calls, all successful:
  \<open>OnBegin\<close>, every \<open>OnData\<close> call of the list, \<open>OnCommit\<close>, \<open>Record\<close> when the flush is the
  final one, \<open>SetConsistentPoint\<close> with the stamp it returns, and then the deferred
  rollback. A flush returns an error only if one of its calls other than the rollback
  failed with that error, or if it is final and \<open>NewCommitted\<close> failed with it after a
  successful \<open>OnCommit\<close>. When no call fails, the flush returns what the stamp transition
  returns.
\<close>

theorem flush_order:
  assumes "flush D source targets cursor s ta final w = (res, w')"
  shows "\<exists>tr. trace w' = trace w @ tr
    \<and> (\<exists>n. filter is_OnData (map fst tr)
            = take n (map (\<lambda>tbl. OnData source tbl (GetZero ta tbl))
                        (filter (\<lambda>tbl. GetZero ta tbl \<noteq> []) (concat targets))))
    \<and> (OnCommit \<in> fst ` set tr \<longrightarrow>
          filter is_OnData (map fst tr)
            = map (\<lambda>tbl. OnData source tbl (GetZero ta tbl))
                (filter (\<lambda>tbl. GetZero ta tbl \<noteq> []) (concat targets)))
    \<and> (\<forall>a s' out b. tr = a @ (SetConsistentPoint s', out) # b \<longrightarrow> (OnCommit, None) \<in> set a)
    \<and> (distinct (concat targets) \<longrightarrow> distinct (filter is_OnData (map fst tr)))
    \<and> (\<exists>out rest. tr = (OnBegin, out) # rest)
    \<and> (\<forall>s'. res = Inr s' \<longrightarrow>
          (\<exists>out. tr = (OnBegin, None)
                # map (\<lambda>tbl. (OnData source tbl (GetZero ta tbl), None))
                    (filter (\<lambda>tbl. GetZero ta tbl \<noteq> []) (concat targets))
                @ (OnCommit, None) # (if final then [(Record (CommittedTime s'), None)] else [])
                @ [(SetConsistentPoint s', None), (OnRollback, out)]))
    \<and> (\<forall>e. res = Inl e \<longrightarrow>
          (\<exists>c. c \<noteq> OnRollback \<and> (c, Some e) \<in> set tr)
          \<or> (final \<and> NewCommitted D s = Inl e \<and> (OnCommit, None) \<in> set tr))
    \<and> (sched w = [] \<longrightarrow> res = (if final then NewCommitted D s else Inr (NewProgress s cursor)))"
proof -
  have data: "map (\<lambda>tbl. (OnData source tbl (GetZero ta tbl), None))
                (filter (\<lambda>tbl. GetZero ta tbl \<noteq> []) (concat targets))
            = succeeded (data_calls source (concat targets) ta)"
    by (simp add: data_calls_def succeeded_def comp_def)
  from flush_calls_prefix [OF assms] obtain tr where C: "trace w' = trace w @ tr
    \<and> (\<exists>n. filter is_OnData (map fst tr)
            = take n (map (\<lambda>tbl. OnData source tbl (GetZero ta tbl))
                        (filter (\<lambda>tbl. GetZero ta tbl \<noteq> []) (concat targets))))
    \<and> (OnCommit \<in> fst ` set tr \<longrightarrow>
          filter is_OnData (map fst tr)
            = map (\<lambda>tbl. OnData source tbl (GetZero ta tbl))
                (filter (\<lambda>tbl. GetZero ta tbl \<noteq> []) (concat targets)))
    \<and> (\<forall>a s' out b. tr = a @ (SetConsistentPoint s', out) # b \<longrightarrow> (OnCommit, None) \<in> set a)
    \<and> (distinct (concat targets) \<longrightarrow> distinct (filter is_OnData (map fst tr)))"
    by (rule exE)
  note t = C [THEN conjunct1]
  note P1 = C [THEN conjunct2, THEN conjunct1]
  note P2 = C [THEN conjunct2, THEN conjunct2, THEN conjunct1]
  note P3 = C [THEN conjunct2, THEN conjunct2, THEN conjunct2, THEN conjunct1]
  note P4 = C [THEN conjunct2, THEN conjunct2, THEN conjunct2, THEN conjunct2]
  have Q1: "\<exists>out rest. tr = (OnBegin, out) # rest"
    using flush_outcome_begin [OF assms t] .
  have Q2: "\<forall>s'. res = Inr s' \<longrightarrow>
          (\<exists>out. tr = (OnBegin, None)
                # map (\<lambda>tbl. (OnData source tbl (GetZero ta tbl), None))
                    (filter (\<lambda>tbl. GetZero ta tbl \<noteq> []) (concat targets))
                @ (OnCommit, None) # (if final then [(Record (CommittedTime s'), None)] else [])
                @ [(SetConsistentPoint s', None), (OnRollback, out)])"
  proof (intro allI impI)
    fix s' assume "res = Inr s'"
    with assms have "flush D source targets cursor s ta final w = (Inr s', w')" by simp
    from flush_outcome_ok [OF this t]
    show "\<exists>out. tr = (OnBegin, None)
                # map (\<lambda>tbl. (OnData source tbl (GetZero ta tbl), None))
                    (filter (\<lambda>tbl. GetZero ta tbl \<noteq> []) (concat targets))
                @ (OnCommit, None) # (if final then [(Record (CommittedTime s'), None)] else [])
                @ [(SetConsistentPoint s', None), (OnRollback, out)]"
      unfolding data .
  qed
  have Q3: "\<forall>e. res = Inl e \<longrightarrow>
          (\<exists>c. c \<noteq> OnRollback \<and> (c, Some e) \<in> set tr)
          \<or> (final \<and> NewCommitted D s = Inl e \<and> (OnCommit, None) \<in> set tr)"
  proof (intro allI impI)
    fix e assume "res = Inl e"
    with assms have "flush D source targets cursor s ta final w = (Inl e, w')" by simp
    from flush_outcome_err [OF this t]
    show "(\<exists>c. c \<noteq> OnRollback \<and> (c, Some e) \<in> set tr)
          \<or> (final \<and> NewCommitted D s = Inl e \<and> (OnCommit, None) \<in> set tr)" .
  qed
  have Q4: "sched w = [] \<longrightarrow> res = (if final then NewCommitted D s else Inr (NewProgress s cursor))"
    using flush_no_faults [of w D source targets cursor s ta final] assms
    by (simp add: flush_result_def)
  show ?thesis
    by (rule exI [of _ tr]) (intro conjI t P1 P2 P3 P4 Q1 Q2 Q3 Q4)
qed

theorem flush_order_witness:
  "filter is_OnData (map fst (trace (snd (flush ex_deps ''s'' [[''p'', ''e''], [''c'']]
       (at_offsets \<lparr>Start = hlc_Zero, End = hlc_New 20 0, Targets = [[''p'', ''e''], [''c'']], Limit = 10,
          cBackfill = False, cOffsetKey = [], cOffsetTable = [], cOffsetTime = hlc_Zero\<rparr>
          (''d'', ''c'', hlc_New 2 0))
       ex_stamp [(''c'', [ex_mut ''a'' 1]), (''e'', []), (''p'', [ex_mut ''b'' 1])] False (ex_world [])))))
     = [OnData ''s'' ''p'' [ex_mut ''b'' 1], OnData ''s'' ''c'' [ex_mut ''a'' 1]]
   \<and> map fst (trace (snd (flush ex_deps ''s'' [[''p'', ''e''], [''c'']]
       (at_offsets \<lparr>Start = hlc_Zero, End = hlc_New 20 0, Targets = [[''p'', ''e''], [''c'']], Limit = 10,
          cBackfill = False, cOffsetKey = [], cOffsetTable = [], cOffsetTime = hlc_Zero\<rparr>
          (''d'', ''c'', hlc_New 2 0))
       ex_stamp [(''c'', [ex_mut ''a'' 1]), (''e'', []), (''p'', [ex_mut ''b'' 1])] False (ex_world []))))
     = [OnBegin, OnData ''s'' ''p'' [ex_mut ''b'' 1], OnData ''s'' ''c'' [ex_mut ''a'' 1], OnCommit,
        SetConsistentPoint (ex_stamp\<lparr>OffsetKey := ''d'', OffsetTable := ''c'', OffsetTime := hlc_New 2 0\<rparr>),
        OnRollback]"
proof -
  let ?cur = "at_offsets \<lparr>Start = hlc_Zero, End = hlc_New 20 0, Targets = [[''p'', ''e''], [''c'']], Limit = 10,
          cBackfill = False, cOffsetKey = [], cOffsetTable = [], cOffsetTime = hlc_Zero\<rparr>
          (''d'', ''c'', hlc_New 2 0)"
  let ?ta = "[(''c'', [ex_mut ''a'' 1]), (''e'', []), (''p'', [ex_mut ''b'' 1])]"
  let ?p = "ex_stamp\<lparr>OffsetKey := ''d'', OffsetTable := ''c'', OffsetTime := hlc_New 2 0\<rparr>"
  let ?w' = "\<lparr>trace = [(OnBegin, None), (OnData ''s'' ''p'' [ex_mut ''b'' 1], None),
                (OnData ''s'' ''c'' [ex_mut ''a'' 1], None), (OnCommit, None),
                (SetConsistentPoint ?p, None), (OnRollback, None)],
             point = ?p, sched = []\<rparr>"
  have run: "flush ex_deps ''s'' [[''p'', ''e''], [''c'']] ?cur ex_stamp ?ta False (ex_world []) = (Inr ?p, ?w')"
    by (simp add: flush_def flush_body_def invoke_def ex_world_def ex_stamp_def
        at_offsets_def GetZero_def NewProgress_def Let_def)
  from flush_order [OF run] show ?thesis
    unfolding run by (simp add: GetZero_def)
qed

subsection \<open>Interim flushes in the default mode\<close>

lemma hlc_Compare_pos: "0 < hlc_Compare a b \<longleftrightarrow> hlc_tuple b < hlc_tuple a"
  by (auto simp: hlc_Compare_def hlc_tuple_def)

lemma map_of_filter_other:
  "t' \<noteq> t \<Longrightarrow> map_of (filter (\<lambda>p. fst p \<noteq> t) m) t' = map_of m t'"
  by (induction m) auto

lemma GetZero_Put: "GetZero (Put m t v) t' = (if t' = t then v else GetZero m t')"
  by (simp add: GetZero_def Put_def map_of_filter_other)

lemma GetZero_reset_fold:
  "GetZero (foldl (\<lambda>acc (tbl, muts). Put acc tbl []) acc xs) t
     = (if t \<in> fst ` set xs then [] else GetZero acc t)"
proof (induction xs arbitrary: acc)
  case Nil
  then show ?case by simp
next
  case (Cons x xs)
  obtain tbl muts where x: "x = (tbl, muts)" by (cases x)
  show ?case by (simp add: x Cons.IH GetZero_Put)
qed

lemma reset_eq: "reset m = foldl (\<lambda>acc (tbl, muts). Put acc tbl []) m m"
  by (simp add: reset_def)

lemma GetZero_reset: "GetZero (reset m) t = []"
proof (cases "t \<in> fst ` set m")
  case True
  then show ?thesis by (simp only: reset_eq GetZero_reset_fold if_True)
next
  case False
  then have "map_of m t = None" by (simp add: map_of_eq_None_iff)
  then have "GetZero m t = []" by (simp add: GetZero_def)
  with False show ?thesis by (simp only: reset_eq GetZero_reset_fold if_False)
qed

lemma buffered_reset: "buffered (reset m) = {}"
  by (simp add: buffered_def GetZero_reset)

lemma buffered_Put: "buffered (Put m t (GetZero m t @ [x])) = insert x (buffered m)"
  by (auto simp: buffered_def GetZero_Put split: if_splits)

lemma buffered_Nil: "buffered [] = {}"
  by (simp add: buffered_def GetZero_def)

lemma payload_append: "payload (a @ b) = payload a \<union> payload b"
  by (simp add: payload_def)

lemma payload_Nil: "payload [] = {}"
  by (simp add: payload_def)

lemma apart_Nil: "apart []"
  by (simp add: apart_def)

lemma apart_single:
  assumes "\<And>j. 0 < j \<Longrightarrow> j < length tr \<Longrightarrow> fst (tr ! j) \<noteq> OnBegin"
  shows "apart tr"
  unfolding apart_def
proof (intro allI impI)
  fix i j k assume "i < j \<and> j < k \<and> k < length tr \<and> fst (tr ! j) = OnBegin"
  then have "0 < j" "j < length tr" "fst (tr ! j) = OnBegin" by simp_all
  with assms [of j] show "\<forall>m1\<in>set (muts_of (tr ! i)). \<forall>m2\<in>set (muts_of (tr ! k)).
           hlc_tuple (Time m1) < hlc_tuple (Time m2)" by simp
qed

lemma apart_append:
  assumes a: "apart a" and b: "apart b"
    and cross: "\<And>m1 m2. m1 \<in> payload a \<Longrightarrow> m2 \<in> payload b \<Longrightarrow> hlc_tuple (Time m1) < hlc_tuple (Time m2)"
  shows "apart (a @ b)"
  unfolding apart_def
proof (intro allI impI ballI)
  fix i j k m1 m2
  assume h: "i < j \<and> j < k \<and> k < length (a @ b) \<and> fst ((a @ b) ! j) = OnBegin"
    and m1: "m1 \<in> set (muts_of ((a @ b) ! i))" and m2: "m2 \<in> set (muts_of ((a @ b) ! k))"
  show "hlc_tuple (Time m1) < hlc_tuple (Time m2)"
  proof (cases "k < length a")
    case True
    with h have lt: "i < length a" "j < length a" by simp_all
    with True h have "i < j \<and> j < k \<and> k < length a \<and> fst (a ! j) = OnBegin"
      by (simp add: nth_append)
    moreover from True lt m1 m2 have "m1 \<in> set (muts_of (a ! i))" "m2 \<in> set (muts_of (a ! k))"
      by (simp_all add: nth_append)
    ultimately show ?thesis using a unfolding apart_def by blast
  next
    case kb: False
    show ?thesis
    proof (cases "i < length a")
      case True
      with m1 have "m1 \<in> payload a" by (auto simp: payload_def nth_append)
      moreover from kb h m2 have "m2 \<in> payload b"
        by (auto simp: payload_def nth_append)
      ultimately show ?thesis by (rule cross)
    next
      case False
      with h kb have ge: "\<not> j < length a" by simp
      with False h kb have "i - length a < j - length a \<and> j - length a < k - length a
          \<and> k - length a < length b \<and> fst (b ! (j - length a)) = OnBegin"
        by (simp add: nth_append) linarith
      moreover from False kb m1 m2 have "m1 \<in> set (muts_of (b ! (i - length a)))"
          "m2 \<in> set (muts_of (b ! (k - length a)))"
        by (simp_all add: nth_append)
      ultimately show ?thesis using b unfolding apart_def by blast
    qed
  qed
qed

lemma body_calls_no_begin: "OnBegin \<notin> set (body_calls D source targets cursor s ta final)"
  by (auto simp: body_calls_def data_calls_def final_calls_def split: sum.splits)

lemma body_calls_data:
  "OnData src tbl muts \<in> set (body_calls D source targets cursor s ta final) \<Longrightarrow> muts = GetZero ta tbl"
  by (auto simp: body_calls_def data_calls_def final_calls_def split: sum.splits if_splits)

text \<open>A flush begins with \<open>OnBegin\<close>, has no other, and hands over mutations of the buffer only.\<close>

lemma flush_payload:
  assumes "flush D source targets cursor s ta final w = (res, w')"
  shows "\<exists>tr. ext w w' tr \<and> tr \<noteq> [] \<and> (\<forall>j. 0 < j \<and> j < length tr \<longrightarrow> fst (tr ! j) \<noteq> OnBegin)
           \<and> payload tr \<subseteq> buffered ta
           \<and> (\<forall>s'. res = Inr s' \<longrightarrow> \<not> final \<longrightarrow> s' = NewProgress s cursor)"
proof -
  let ?cs = "body_calls D source targets cursor s ta final"
  have shape: "tr \<noteq> [] \<and> (\<forall>j. 0 < j \<and> j < length tr \<longrightarrow> fst (tr ! j) \<noteq> OnBegin) \<and> payload tr \<subseteq> buffered ta"
    if tr: "tr = (OnBegin, out) # rest" and rest: "fst ` set rest \<subseteq> set ?cs \<union> {OnRollback}" for tr out rest
  proof (intro conjI allI impI)
    show "tr \<noteq> []" using tr by simp
    fix j assume j: "0 < j \<and> j < length tr"
    then have "tr ! j = rest ! (j - 1)" "j - 1 < length rest" using tr by (auto simp: nth_Cons')
    then have "fst (tr ! j) \<in> fst ` set rest" by (metis imageI nth_mem)
    with rest body_calls_no_begin [of D source targets cursor s ta final]
    show "fst (tr ! j) \<noteq> OnBegin" by auto
  next
    show "payload tr \<subseteq> buffered ta"
    proof
      fix m assume "m \<in> payload tr"
      then obtain e where e: "e \<in> set rest" "m \<in> set (muts_of e)"
        using tr by (auto simp: payload_def muts_of_def)
      then obtain src tbl muts where c: "fst e = OnData src tbl muts" "m \<in> set muts"
        by (cases "fst e") (auto simp: muts_of_def)
      with e rest have "OnData src tbl muts \<in> set ?cs" by force
      then have "muts = GetZero ta tbl" by (rule body_calls_data)
      with c show "m \<in> buffered ta" by (auto simp: buffered_def)
    qed
  qed
  from flush_cases [OF assms] consider
    (at_begin) e where "res = Inl e" "ext w w' [(OnBegin, Some e)]"
  | (in_body) e pre c post out where "res = Inl e" "?cs = pre @ c # post"
      "ext w w' ((OnBegin, None) # succeeded pre @ [(c, Some e), (OnRollback, out)])"
  | (complete) out where "res = flush_result D cursor s final"
      "ext w w' ((OnBegin, None) # succeeded ?cs @ [(OnRollback, out)])"
    by blast
  then show ?thesis
  proof cases
    case at_begin
    have "fst ` set [] \<subseteq> set ?cs \<union> {OnRollback}" by simp
    note S = shape [OF refl this, of "Some e"]
    have R: "\<forall>s'. res = Inr s' \<longrightarrow> \<not> final \<longrightarrow> s' = NewProgress s cursor"
      using at_begin(1) by simp
    from at_begin(2) S R show ?thesis by blast
  next
    case in_body
    let ?rest = "succeeded pre @ [(c, Some e), (OnRollback, out)]"
    have "fst ` set ?rest \<subseteq> set ?cs \<union> {OnRollback}"
      unfolding in_body(2) by (auto simp: succeeded_def)
    note S = shape [OF refl this, of None]
    have R: "\<forall>s'. res = Inr s' \<longrightarrow> \<not> final \<longrightarrow> s' = NewProgress s cursor"
      using in_body(1) by simp
    from in_body(3) S R show ?thesis by blast
  next
    case complete
    let ?rest = "succeeded ?cs @ [(OnRollback, out)]"
    have "fst ` set ?rest \<subseteq> set ?cs \<union> {OnRollback}"
      by (auto simp: succeeded_def)
    note S = shape [OF refl this, of None]
    have R: "\<forall>s'. res = Inr s' \<longrightarrow> \<not> final \<longrightarrow> s' = NewProgress s cursor"
      using complete(1) by (simp add: flush_result_def)
    from complete(2) S R show ?thesis by blast
  qed
qed

lemma Backfill_NewProgress: "Backfill (NewProgress s cursor) = Backfill s"
  by (simp add: NewProgress_def)

lemma Time_AddMeta: "Time (AddMeta source tbl mut) = Time mut"
  by (simp add: AddMeta_def)

text \<open>One call of the callback in the default mode.\<close>

lemma callback_default:
  assumes run: "callback D r cursor tbl mut st w = (res, w')"
    and mode: "\<not> Backfill (rs st)" "\<not> FlushEveryTimestamp (cfg r)"
    and ep: "\<And>b. b \<in> buffered (toApply st) \<Longrightarrow> hlc_tuple (Time b) \<le> hlc_tuple (epoch st)"
  shows "\<exists>tr. ext w w' tr \<and> apart tr \<and> payload tr \<subseteq> buffered (toApply st)
     \<and> (tr \<noteq> [] \<longleftrightarrow> IdealFlushBatchSize (cfg r) \<le> flushCounter st
                       \<and> hlc_tuple (epoch st) < hlc_tuple (Time mut))
     \<and> (\<forall>x\<in>payload tr. hlc_tuple (Time x) < hlc_tuple (Time mut))
     \<and> (\<forall>st'. res = Inr st' \<longrightarrow>
           \<not> Backfill (rs st') \<and> epoch st' = Time mut
           \<and> buffered (toApply st') = insert (AddMeta ''cdc'' tbl mut)
                 (if tr = [] then buffered (toApply st) else {}))"
proof (cases "needsFlush (cfg r) st mut")
  case False
  with run have w: "w' = w" and res: "res = Inr (st\<lparr>flushCounter := flushCounter st + 1,
         toApply := Put (toApply st) tbl (GetZero (toApply st) tbl @ [AddMeta ''cdc'' tbl mut]),
         epoch := Time (AddMeta ''cdc'' tbl mut)\<rparr>)"
    by (auto simp: callback_def)
  have nf: "\<not> (IdealFlushBatchSize (cfg r) \<le> flushCounter st \<and> hlc_tuple (epoch st) < hlc_tuple (Time mut))"
    using False mode by (simp add: needsFlush_def hlc_Compare_pos)
  have "ext w w' [] \<and> apart [] \<and> payload [] \<subseteq> buffered (toApply st)
     \<and> (([]::(call \<times> error option) list) \<noteq> [] \<longleftrightarrow> IdealFlushBatchSize (cfg r) \<le> flushCounter st
                       \<and> hlc_tuple (epoch st) < hlc_tuple (Time mut))
     \<and> (\<forall>x\<in>payload []. hlc_tuple (Time x) < hlc_tuple (Time mut))
     \<and> (\<forall>st'. res = Inr st' \<longrightarrow>
           \<not> Backfill (rs st') \<and> epoch st' = Time mut
           \<and> buffered (toApply st') = insert (AddMeta ''cdc'' tbl mut)
                 (if ([]::(call \<times> error option) list) = [] then buffered (toApply st) else {}))"
    using w res nf mode ext_refl [of w]
    by (simp add: apart_Nil payload_Nil buffered_Put Time_AddMeta)
  then show ?thesis by blast
next
  case True
  then have yes: "IdealFlushBatchSize (cfg r) \<le> flushCounter st" "hlc_tuple (epoch st) < hlc_tuple (Time mut)"
    using mode by (simp_all add: needsFlush_def hlc_Compare_pos)
  obtain fr w1 where f: "flush D (SourceName D (target r)) (Order r) cursor (rs st) (toApply st) False w = (fr, w1)"
    by (cases "flush D (SourceName D (target r)) (Order r) cursor (rs st) (toApply st) False w")
  from flush_payload [OF f] obtain tr where tr: "ext w w1 tr" "tr \<noteq> []"
      "\<forall>j. 0 < j \<and> j < length tr \<longrightarrow> fst (tr ! j) \<noteq> OnBegin"
      "payload tr \<subseteq> buffered (toApply st)"
      "\<forall>s'. fr = Inr s' \<longrightarrow> s' = NewProgress (rs st) cursor"
    by auto
  have ap: "apart tr" using tr(3) by (intro apart_single) simp
  have lt: "\<forall>x\<in>payload tr. hlc_tuple (Time x) < hlc_tuple (Time mut)"
  proof
    fix x assume "x \<in> payload tr"
    with tr(4) have "x \<in> buffered (toApply st)" by auto
    from ep [OF this] yes(2) show "hlc_tuple (Time x) < hlc_tuple (Time mut)" by simp
  qed
  have w: "w' = w1" using run True f by (auto simp: callback_def split: sum.splits)
  have st': "\<forall>st'. res = Inr st' \<longrightarrow>
           \<not> Backfill (rs st') \<and> epoch st' = Time mut
           \<and> buffered (toApply st') = insert (AddMeta ''cdc'' tbl mut) {}"
  proof (intro allI impI)
    fix st' assume r: "res = Inr st'"
    with run True f obtain s' where fr: "fr = Inr s'" and
      st': "st' = (st\<lparr>rs := s', total := total st + flushCounter st, flushCounter := 0,
                               toApply := reset (toApply st)\<rparr>)\<lparr>flushCounter := 0 + 1,
                    toApply := Put (reset (toApply st)) tbl (GetZero (reset (toApply st)) tbl @ [AddMeta ''cdc'' tbl mut]),
                    epoch := Time (AddMeta ''cdc'' tbl mut)\<rparr>"
      by (auto simp: callback_def split: sum.splits)
    from tr(5) fr have "s' = NewProgress (rs st) cursor" by simp
    with st' mode show "\<not> Backfill (rs st') \<and> epoch st' = Time mut
           \<and> buffered (toApply st') = insert (AddMeta ''cdc'' tbl mut) {}"
      by (simp add: Backfill_NewProgress Time_AddMeta buffered_Put buffered_reset)
  qed
  from tr(1,2,4) ap lt st' yes w show ?thesis by auto
qed

text \<open>The whole scan in the default mode, over items in the order of their times.\<close>

lemma SelectMany_default:
  assumes run: "SelectMany (callback D r) cursor items sm_err st w = (res, w')"
    and mode: "\<not> Backfill (rs st)" "\<not> FlushEveryTimestamp (cfg r)"
    and ordered: "sorted (map item_time items)"
    and ep: "\<And>b. b \<in> buffered (toApply st) \<Longrightarrow> hlc_tuple (Time b) \<le> hlc_tuple (epoch st)"
    and ahead: "\<And>b it. b \<in> buffered (toApply st) \<Longrightarrow> it \<in> set items \<Longrightarrow> hlc_tuple (Time b) \<le> item_time it"
  shows "\<exists>tr. ext w w' tr \<and> apart tr
       \<and> (\<forall>x\<in>payload tr. x \<in> buffered (toApply st) \<or> (\<exists>it\<in>set items. hlc_tuple (Time x) = item_time it))
       \<and> (\<forall>st'. res = Inr st' \<longrightarrow>
            (\<forall>b\<in>buffered (toApply st').
               (b \<in> buffered (toApply st) \<or> (\<exists>it\<in>set items. hlc_tuple (Time b) = item_time it))
               \<and> (\<forall>x\<in>payload tr. hlc_tuple (Time x) < hlc_tuple (Time b))))"
  using run mode(1) ordered ep ahead
proof (induction items arbitrary: st w)
  case Nil
  then have "w' = w" "\<forall>st'. res = Inr st' \<longrightarrow> st' = st" by (auto split: option.splits)
  then have "ext w w' [] \<and> apart []
       \<and> (\<forall>x\<in>payload []. x \<in> buffered (toApply st) \<or> (\<exists>it\<in>set []. hlc_tuple (Time x) = item_time it))
       \<and> (\<forall>st'. res = Inr st' \<longrightarrow>
            (\<forall>b\<in>buffered (toApply st').
               (b \<in> buffered (toApply st) \<or> (\<exists>it\<in>set []. hlc_tuple (Time b) = item_time it))
               \<and> (\<forall>x\<in>payload []. hlc_tuple (Time x) < hlc_tuple (Time b))))"
    using ext_refl [of w] by (simp add: apart_Nil payload_Nil)
  then show ?case by blast
next
  case (Cons it items)
  obtain off tbl mut where it: "it = (off, tbl, mut)" by (cases it) auto
  have itt: "item_time it = hlc_tuple (Time mut)" by (simp add: it item_time_def)
  let ?m = "AddMeta ''cdc'' tbl mut"
  let ?B = "buffered (toApply st)"
  from Cons.prems(3) have later: "\<And>it'. it' \<in> set items \<Longrightarrow> item_time it \<le> item_time it'"
    and ordered': "sorted (map item_time items)" by auto
  obtain cr w1 where c: "callback D r (at_offsets cursor off) tbl mut st w = (cr, w1)"
    by (cases "callback D r (at_offsets cursor off) tbl mut st w")
  from callback_default [OF c Cons.prems(2) mode(2) Cons.prems(4)]
  obtain tr1 where tr1: "ext w w1 tr1" "apart tr1" "payload tr1 \<subseteq> ?B"
      "\<forall>x\<in>payload tr1. hlc_tuple (Time x) < hlc_tuple (Time mut)"
      "\<forall>st'. cr = Inr st' \<longrightarrow> \<not> Backfill (rs st') \<and> epoch st' = Time mut
           \<and> buffered (toApply st') = insert ?m (if tr1 = [] then ?B else {})"
    by blast
  show ?case
  proof (cases cr)
    case (Inl e)
    with Cons.prems(1) it c have "res = Inl e" "w' = w1" by auto
    with tr1(1,2,3) have "ext w w' tr1 \<and> apart tr1
       \<and> (\<forall>x\<in>payload tr1. x \<in> ?B \<or> (\<exists>it\<in>set (it # items). hlc_tuple (Time x) = item_time it))
       \<and> (\<forall>st'. res = Inr st' \<longrightarrow>
            (\<forall>b\<in>buffered (toApply st').
               (b \<in> ?B \<or> (\<exists>it\<in>set (it # items). hlc_tuple (Time b) = item_time it))
               \<and> (\<forall>x\<in>payload tr1. hlc_tuple (Time x) < hlc_tuple (Time b))))"
      by auto
    then show ?thesis by blast
  next
    case (Inr st1)
    with Cons.prems(1) it c have rest: "SelectMany (callback D r) cursor items sm_err st1 w1 = (res, w')"
      by simp
    from tr1(5) Inr have st1: "\<not> Backfill (rs st1)" "epoch st1 = Time mut"
      "buffered (toApply st1) = insert ?m (if tr1 = [] then ?B else {})" by simp_all
    have in1: "b = ?m \<or> b \<in> ?B" if "b \<in> buffered (toApply st1)" for b
      using that st1(3) by (auto split: if_splits)
    have tm: "hlc_tuple (Time ?m) = item_time it" by (simp add: itt Time_AddMeta)
    have ep1: "hlc_tuple (Time b) \<le> hlc_tuple (epoch st1)" if "b \<in> buffered (toApply st1)" for b
      using in1 [OF that] tm itt st1(2) Cons.prems(5) [of b it] by auto
    have ahead1: "hlc_tuple (Time b) \<le> item_time it'"
      if "b \<in> buffered (toApply st1)" "it' \<in> set items" for b it'
      using in1 [OF that(1)] tm later [OF that(2)] Cons.prems(5) [of b it'] that(2) by auto
    from Cons.IH [OF rest st1(1) ordered' ep1 ahead1]
    obtain tr2 where tr2: "ext w1 w' tr2" "apart tr2"
      "\<forall>x\<in>payload tr2. x \<in> buffered (toApply st1) \<or> (\<exists>it\<in>set items. hlc_tuple (Time x) = item_time it)"
      "\<forall>st'. res = Inr st' \<longrightarrow>
            (\<forall>b\<in>buffered (toApply st').
               (b \<in> buffered (toApply st1) \<or> (\<exists>it\<in>set items. hlc_tuple (Time b) = item_time it))
               \<and> (\<forall>x\<in>payload tr2. hlc_tuple (Time x) < hlc_tuple (Time b)))"
      by blast
    text \<open>Whatever is in the new buffer or still to come is not before this mutation.\<close>
    have notbefore: "hlc_tuple (Time mut) \<le> hlc_tuple (Time y)"
      if p: "payload tr1 \<noteq> {}"
        and y: "y \<in> buffered (toApply st1) \<or> (\<exists>it'\<in>set items. hlc_tuple (Time y) = item_time it')" for y
    proof -
      from p have "tr1 \<noteq> []" by (auto simp: payload_def)
      with st1(3) have "buffered (toApply st1) = {?m}" by simp
      with y tm itt later show ?thesis by auto
    qed
    have origin: "y \<in> ?B \<or> (\<exists>it'\<in>set (it # items). hlc_tuple (Time y) = item_time it')"
      if "y \<in> buffered (toApply st1) \<or> (\<exists>it'\<in>set items. hlc_tuple (Time y) = item_time it')" for y
      using that in1 [of y] tm by auto
    have cross: "hlc_tuple (Time m1) < hlc_tuple (Time m2)"
      if "m1 \<in> payload tr1" "m2 \<in> payload tr2" for m1 m2
    proof -
      from that(1) tr1(4) have "hlc_tuple (Time m1) < hlc_tuple (Time mut)" by simp
      moreover from that have "hlc_tuple (Time mut) \<le> hlc_tuple (Time m2)"
        using notbefore [of m2] tr2(3) by blast
      ultimately show ?thesis by simp
    qed
    have e: "ext w w' (tr1 @ tr2)" using ext_trans [OF tr1(1) tr2(1)] .
    have a: "apart (tr1 @ tr2)" using apart_append [OF tr1(2) tr2(2) cross] .
    have p: "\<forall>x\<in>payload (tr1 @ tr2). x \<in> ?B \<or> (\<exists>it\<in>set (it # items). hlc_tuple (Time x) = item_time it)"
      using tr1(3) tr2(3) origin by (auto simp: payload_append)
    have f: "\<forall>st'. res = Inr st' \<longrightarrow>
            (\<forall>b\<in>buffered (toApply st').
               (b \<in> ?B \<or> (\<exists>it\<in>set (it # items). hlc_tuple (Time b) = item_time it))
               \<and> (\<forall>x\<in>payload (tr1 @ tr2). hlc_tuple (Time x) < hlc_tuple (Time b)))"
    proof (intro allI impI ballI conjI)
      fix st' b assume r: "res = Inr st'" and b: "b \<in> buffered (toApply st')"
      from tr2(4) r b have b1: "b \<in> buffered (toApply st1) \<or> (\<exists>it\<in>set items. hlc_tuple (Time b) = item_time it)"
        and b2: "\<forall>x\<in>payload tr2. hlc_tuple (Time x) < hlc_tuple (Time b)" by blast+
      show "b \<in> ?B \<or> (\<exists>it\<in>set (it # items). hlc_tuple (Time b) = item_time it)"
        using origin [OF b1] .
      fix x assume "x \<in> payload (tr1 @ tr2)"
      then consider "x \<in> payload tr1" | "x \<in> payload tr2" by (auto simp: payload_append)
      then show "hlc_tuple (Time x) < hlc_tuple (Time b)"
      proof cases
        case 1
        with tr1(4) have "hlc_tuple (Time x) < hlc_tuple (Time mut)" by simp
        moreover from 1 have "hlc_tuple (Time mut) \<le> hlc_tuple (Time b)"
          using notbefore [of b] b1 by blast
        ultimately show ?thesis by simp
      next
        case 2
        with b2 show ?thesis by simp
      qed
    qed
    from e a p f show ?thesis by blast
  qed
qed

lemma apart_split:
  assumes "apart tr"
    and "tr = a @ (OnData s1 t1 ms1, o1) # b @ (OnBegin, ob) # c @ (OnData s2 t2 ms2, o2) # d"
    and "m1 \<in> set ms1" "m2 \<in> set ms2"
  shows "hlc_tuple (Time m1) < hlc_tuple (Time m2)"
proof -
  let ?i = "length a" and ?j = "length a + 1 + length b" and ?k = "length a + 1 + length b + 1 + length c"
  have i: "tr ! ?i = (OnData s1 t1 ms1, o1)" unfolding assms(2) by simp
  have "tr = (a @ (OnData s1 t1 ms1, o1) # b) @ (OnBegin, ob) # c @ (OnData s2 t2 ms2, o2) # d"
    unfolding assms(2) by simp
  then have j: "tr ! ?j = (OnBegin, ob)"
    by (metis add.assoc length_Cons length_append nth_append_length plus_1_eq_Suc add_Suc_right)
  have "tr = (a @ (OnData s1 t1 ms1, o1) # b @ (OnBegin, ob) # c) @ (OnData s2 t2 ms2, o2) # d"
    unfolding assms(2) by simp
  moreover have "length (a @ (OnData s1 t1 ms1, o1) # b @ (OnBegin, ob) # c) = ?k" by simp
  ultimately have k: "tr ! ?k = (OnData s2 t2 ms2, o2)" by (metis nth_append_length)
  have "?i < ?j \<and> ?j < ?k \<and> ?k < length tr \<and> fst (tr ! ?j) = OnBegin"
    using j unfolding assms(2) by simp
  with assms(1) have "\<forall>m1\<in>set (muts_of (tr ! ?i)). \<forall>m2\<in>set (muts_of (tr ! ?k)).
           hlc_tuple (Time m1) < hlc_tuple (Time m2)"
    unfolding apart_def by blast
  with i k assms(3,4) show ?thesis by (simp add: muts_of_def)
qed

lemma process_apart:
  assumes run: "process D r items sm_err s0 w = (res, w')"
    and mode: "\<not> Backfill s0" "\<not> FlushEveryTimestamp (cfg r)"
    and ordered: "sorted (map item_time items)"
  shows "\<exists>tr. ext w w' tr \<and> apart tr"
proof (cases "length (Order r) = 0")
  case True
  with run have "w' = w" by (auto simp: process_def)
  then have "ext w w' [] \<and> apart []" using ext_refl by (simp add: apart_Nil)
  then show ?thesis by blast
next
  case False
  let ?cursor = "\<lparr>Start = CommittedTime s0, End = ProposedTime s0, Targets = Order r,
                        Limit = SelectBatchSize (cfg r), cBackfill = Backfill s0,
                        cOffsetKey = OffsetKey s0, cOffsetTable = OffsetTable s0,
                        cOffsetTime = OffsetTime s0\<rparr>"
  let ?st0 = "\<lparr>epoch = hlc_Zero, flushCounter = 0, toApply = [], total = 0, rs = s0\<rparr>"
  obtain sr w1 where sm: "SelectMany (callback D r) ?cursor items sm_err ?st0 w = (sr, w1)"
    by (cases "SelectMany (callback D r) ?cursor items sm_err ?st0 w")
  have m0: "\<not> Backfill (rs ?st0)" using mode(1) by simp
  have ep0: "\<And>b. b \<in> buffered (toApply ?st0) \<Longrightarrow> hlc_tuple (Time b) \<le> hlc_tuple (epoch ?st0)"
    by (simp add: buffered_Nil)
  have ah0: "\<And>b it. b \<in> buffered (toApply ?st0) \<Longrightarrow> it \<in> set items \<Longrightarrow> hlc_tuple (Time b) \<le> item_time it"
    by (simp add: buffered_Nil)
  from SelectMany_default [OF sm m0 mode(2) ordered ep0 ah0]
  obtain tr1 where tr1: "ext w w1 tr1" "apart tr1"
    "\<forall>st'. sr = Inr st' \<longrightarrow> (\<forall>b\<in>buffered (toApply st'). \<forall>x\<in>payload tr1. hlc_tuple (Time x) < hlc_tuple (Time b))"
    by blast
  show ?thesis
  proof (cases sr)
    case (Inl e)
    with run False sm have "w' = w1" by (auto simp: process_def Let_def)
    with tr1 show ?thesis by blast
  next
    case (Inr st)
    let ?c = "if items = [] then ?cursor else at_offsets ?cursor (fst (last items))"
    obtain fr w2 where f: "flush D (SourceName D (target r)) (Order r) ?c (rs st) (toApply st) True w1 = (fr, w2)"
      by (cases "flush D (SourceName D (target r)) (Order r) ?c (rs st) (toApply st) True w1")
    from flush_payload [OF f] obtain tr2 where tr2: "ext w1 w2 tr2"
      "\<forall>j. 0 < j \<and> j < length tr2 \<longrightarrow> fst (tr2 ! j) \<noteq> OnBegin" "payload tr2 \<subseteq> buffered (toApply st)"
      by blast
    have a2: "apart tr2" using tr2(2) by (intro apart_single) simp
    have cross: "hlc_tuple (Time m1) < hlc_tuple (Time m2)"
      if "m1 \<in> payload tr1" "m2 \<in> payload tr2" for m1 m2
      using that tr1(3) Inr tr2(3) by blast
    from run False sm Inr f have "w' = w2"
      by (auto simp: process_def Let_def split: sum.splits)
    with ext_trans [OF tr1(1) tr2(1)] apart_append [OF tr1(2) a2 cross] show ?thesis by blast
  qed
qed

lemma callback_trace:
  assumes "callback D r cursor tbl mut st w = (res, w')"
  shows "(trace w' \<noteq> trace w) = needsFlush (cfg r) st mut"
    and "\<And>st'. res = Inr st' \<Longrightarrow>
           flushCounter st' = (if needsFlush (cfg r) st mut then 0 else flushCounter st) + 1
           \<and> epoch st' = Time mut"
proof -
  show "(trace w' \<noteq> trace w) = needsFlush (cfg r) st mut"
  proof (cases "needsFlush (cfg r) st mut")
    case False
    with assms have "w' = w" by (auto simp: callback_def)
    with False show ?thesis by simp
  next
    case True
    obtain fr w1 where f: "flush D (SourceName D (target r)) (Order r) cursor (rs st) (toApply st) False w = (fr, w1)"
      by (cases "flush D (SourceName D (target r)) (Order r) cursor (rs st) (toApply st) False w")
    from flush_payload [OF f] obtain tr where "ext w w1 tr" "tr \<noteq> []" by blast
    then have "trace w1 \<noteq> trace w" by (simp add: ext_def)
    moreover have "w' = w1" using assms True f by (auto simp: callback_def split: sum.splits)
    ultimately show ?thesis using True by simp
  qed
  show "flushCounter st' = (if needsFlush (cfg r) st mut then 0 else flushCounter st) + 1
           \<and> epoch st' = Time mut" if "res = Inr st'" for st'
    using assms that
    by (auto simp: callback_def Time_AddMeta split: if_splits sum.splits prod.splits)
qed

subsection \<open>The counter and the buffer\<close>

lemma distinct_Put: "distinct (map fst m) \<Longrightarrow> distinct (map fst (Put m t v))"
  by (auto simp: Put_def distinct_map_filter)

lemma count_filter:
  "distinct (map fst m) \<Longrightarrow>
   buffer_count m = length (GetZero m t) + buffer_count (filter (\<lambda>p. fst p \<noteq> t) m)"
proof (induction m)
  case Nil
  then show ?case by (simp add: buffer_count_def GetZero_def)
next
  case (Cons p m)
  obtain k v where p: "p = (k, v)" by (cases p)
  from Cons.prems p have d: "distinct (map fst m)" and k: "k \<notin> fst ` set m" by auto
  note IH = Cons.IH [OF d]
  show ?case
  proof (cases "k = t")
    case True
    with k have "map_of m t = None" by (simp add: map_of_eq_None_iff)
    then have "GetZero m t = []" by (simp add: GetZero_def)
    with IH True p show ?thesis by (simp add: buffer_count_def GetZero_def)
  next
    case False
    with IH p show ?thesis by (simp add: buffer_count_def GetZero_def)
  qed
qed

lemma count_Put:
  "distinct (map fst m) \<Longrightarrow>
   buffer_count (Put m t (GetZero m t @ [x])) = Suc (buffer_count m)"
  using count_filter [of m t] by (simp add: Put_def buffer_count_def)

lemma distinct_reset_fold:
  "distinct (map fst acc) \<Longrightarrow> distinct (map fst (foldl (\<lambda>acc (tbl, muts). Put acc tbl []) acc xs))"
proof (induction xs arbitrary: acc)
  case Nil
  then show ?case by simp
next
  case (Cons x xs)
  obtain tbl muts where x: "x = (tbl, muts)" by (cases x)
  show ?case unfolding x by (simp, rule Cons.IH, rule distinct_Put, rule Cons.prems)
qed

lemma distinct_reset: "distinct (map fst m) \<Longrightarrow> distinct (map fst (reset m))"
  unfolding reset_eq by (rule distinct_reset_fold)

lemma count_reset:
  assumes "distinct (map fst m)"
  shows "buffer_count (reset m) = 0"
proof -
  have "snd p = []" if "p \<in> set (reset m)" for p
  proof -
    obtain k v where p: "p = (k, v)" by (cases p)
    with that distinct_reset [OF assms] have "map_of (reset m) k = Some v" by simp
    then have "GetZero (reset m) k = v" by (simp add: GetZero_def)
    with p show ?thesis by (simp add: GetZero_reset)
  qed
  then show ?thesis by (simp add: buffer_count_def)
qed

text \<open>
  The counter is the number of mutations in the buffer, and no table has two entries.
\<close>

lemma callback_counts:
  assumes run: "callback D r cursor tbl mut st w = (Inr st', w')"
    and inv: "distinct (map fst (toApply st))" "flushCounter st = int (buffer_count (toApply st))"
  shows "distinct (map fst (toApply st'))" and "flushCounter st' = int (buffer_count (toApply st'))"
    and "epoch st' = Time mut"
    and "Backfill (rs st') = Backfill (rs st)"
proof -
  let ?m = "AddMeta ''cdc'' tbl mut"
  show "epoch st' = Time mut" using callback_trace(2) [OF run] by simp
  show "distinct (map fst (toApply st'))"
    using run inv(1)
    by (auto simp: callback_def distinct_Put distinct_reset split: if_splits sum.splits prod.splits)
  show "flushCounter st' = int (buffer_count (toApply st'))"
  proof (cases "needsFlush (cfg r) st mut")
    case False
    with run have "st' = st\<lparr>flushCounter := flushCounter st + 1,
         toApply := Put (toApply st) tbl (GetZero (toApply st) tbl @ [?m]),
         epoch := Time ?m\<rparr>"
      by (auto simp: callback_def)
    then show ?thesis using inv by (simp add: count_Put)
  next
    case True
    with run have "toApply st' = Put (reset (toApply st)) tbl (GetZero (reset (toApply st)) tbl @ [?m])"
      "flushCounter st' = 1"
      by (auto simp: callback_def split: sum.splits prod.splits)
    then show ?thesis
      using count_Put [OF distinct_reset [OF inv(1)], of tbl ?m] count_reset [OF inv(1)] by simp
  qed
  show "Backfill (rs st') = Backfill (rs st)"
  proof (cases "needsFlush (cfg r) st mut")
    case False
    with run show ?thesis by (auto simp: callback_def)
  next
    case True
    obtain fr w1 where f: "flush D (SourceName D (target r)) (Order r) cursor (rs st) (toApply st) False w = (fr, w1)"
      by (cases "flush D (SourceName D (target r)) (Order r) cursor (rs st) (toApply st) False w")
    from flush_payload [OF f] have "\<forall>s'. fr = Inr s' \<longrightarrow> s' = NewProgress (rs st) cursor" by auto
    moreover from run True f have "fr = Inr (rs st')"
      by (auto simp: callback_def split: sum.splits)
    ultimately show ?thesis by (simp add: Backfill_NewProgress)
  qed
qed

lemma SelectMany_counts:
  assumes "SelectMany (callback D r) cursor items sm_err st w = (Inr st', w')"
    and "distinct (map fst (toApply st))" "flushCounter st = int (buffer_count (toApply st))"
  shows "distinct (map fst (toApply st')) \<and> flushCounter st' = int (buffer_count (toApply st'))
    \<and> epoch st' = (if items = [] then epoch st else Time (snd (snd (last items))))
    \<and> Backfill (rs st') = Backfill (rs st)"
  using assms
proof (induction items arbitrary: st w)
  case Nil
  then have "st' = st" by (auto split: option.splits)
  with Nil show ?case by simp
next
  case (Cons it items)
  obtain off tbl mut where it: "it = (off, tbl, mut)" by (cases it) auto
  obtain cr w1 where c: "callback D r (at_offsets cursor off) tbl mut st w = (cr, w1)"
    by (cases "callback D r (at_offsets cursor off) tbl mut st w")
  from Cons.prems(1) it c obtain st1 where cr: "cr = Inr st1"
    and rest: "SelectMany (callback D r) cursor items sm_err st1 w1 = (Inr st', w')"
    by (cases cr) auto
  note C = callback_counts [OF c [unfolded cr] Cons.prems(2,3)]
  from Cons.IH [OF rest C(1,2)] C(3,4) it show ?case by simp
qed

subsection \<open>What the callback does to the buffer\<close>

lemma callback_buffers:
  assumes run: "callback D r cursor tbl mut st w = (res, w')"
  shows "if needsFlush (cfg r) st mut
      then (\<exists>fr. flush D (SourceName D (target r)) (Order r) cursor (rs st) (toApply st) False w = (fr, w')
             \<and> (case fr of
                   Inl e \<Rightarrow> res = Inl e
                 | Inr s' \<Rightarrow> \<exists>st'. res = Inr st' \<and> rs st' = s'
                      \<and> (\<forall>t. GetZero (toApply st') t = (if t = tbl then [AddMeta ''cdc'' tbl mut] else []))))
      else w' = w \<and> (\<exists>st'. res = Inr st' \<and> rs st' = rs st
             \<and> (\<forall>t. GetZero (toApply st') t
                      = (if t = tbl then GetZero (toApply st) tbl @ [AddMeta ''cdc'' tbl mut]
                         else GetZero (toApply st) t)))"
proof (cases "needsFlush (cfg r) st mut")
  case False
  with run show ?thesis by (auto simp: callback_def GetZero_Put)
next
  case True
  obtain fr w1 where f: "flush D (SourceName D (target r)) (Order r) cursor (rs st) (toApply st) False w = (fr, w1)"
    by (cases "flush D (SourceName D (target r)) (Order r) cursor (rs st) (toApply st) False w")
  show ?thesis
  proof (cases fr)
    case (Inl e)
    with run True f show ?thesis by (auto simp: callback_def)
  next
    case (Inr s')
    with run True f show ?thesis by (auto simp: callback_def GetZero_Put GetZero_reset)
  qed
qed

subsection \<open>Every delivered mutation reaches its table\<close>

lemma handed_Nil: "handed tbl [] = []"
  by (simp add: handed_def)

lemma handed_append: "handed tbl (a @ b) = handed tbl a @ handed tbl b"
  by (simp add: handed_def)

lemma handed_Cons: "handed tbl (e # a) = data_for tbl e @ handed tbl a"
  by (simp add: handed_def)

lemma handed_data_calls:
  "distinct xs \<Longrightarrow>
   handed tbl (succeeded (data_calls source xs ta)) = (if tbl \<in> set xs then GetZero ta tbl else [])"
proof (induction xs)
  case Nil
  then show ?case by (simp add: handed_def succeeded_def data_calls_def)
next
  case (Cons x xs)
  then have IH: "handed tbl (succeeded (data_calls source xs ta)) = (if tbl \<in> set xs then GetZero ta tbl else [])"
    and x: "x \<notin> set xs" by simp_all
  have step: "handed tbl (succeeded (data_calls source (x # xs) ta))
      = (if x = tbl then GetZero ta x else []) @ handed tbl (succeeded (data_calls source xs ta))"
    by (simp add: handed_def succeeded_def data_calls_def data_for_def)
  show ?case unfolding step IH using x by auto
qed

lemma flush_handed:
  assumes run: "flush D source targets cursor s ta final w = (Inr s', w')"
    and tr: "trace w' = trace w @ tr"
    and d: "distinct (concat targets)"
  shows "handed tbl tr = (if tbl \<in> set (concat targets) then GetZero ta tbl else [])"
proof -
  from flush_outcome_ok [OF run tr] obtain out where
    t: "tr = (OnBegin, None) # succeeded (data_calls source (concat targets) ta)
                       @ (OnCommit, None) # (if final then [(Record (CommittedTime s'), None)] else [])
                       @ [(SetConsistentPoint s', None), (OnRollback, out)]" by blast
  have "handed tbl tr = handed tbl (succeeded (data_calls source (concat targets) ta))"
    unfolding t by (simp add: handed_Cons handed_append handed_Nil data_for_def)
  then show ?thesis by (simp add: handed_data_calls [OF d])
qed

text \<open>
  One call of the callback, in any mode: what has been handed over and what is in the
  buffer afterwards is what was in the buffer before and the mutation, for every table.
\<close>

lemma callback_handed:
  assumes run: "callback D r cursor tbl mut st w = (Inr st', w')"
    and d: "distinct (concat (Order r))"
    and known: "\<And>t. GetZero (toApply st) t \<noteq> [] \<Longrightarrow> t \<in> set (concat (Order r))"
    and tbl: "tbl \<in> set (concat (Order r))"
  shows "\<exists>tr. trace w' = trace w @ tr
     \<and> (\<forall>t. handed t tr @ GetZero (toApply st') t
             = GetZero (toApply st) t @ (if t = tbl then [AddMeta ''cdc'' tbl mut] else []))
     \<and> (\<forall>t. GetZero (toApply st') t \<noteq> [] \<longrightarrow> t \<in> set (concat (Order r)))"
proof (cases "needsFlush (cfg r) st mut")
  case False
  with callback_buffers [OF run] have w: "w' = w"
    and b: "\<And>t. GetZero (toApply st') t
                      = (if t = tbl then GetZero (toApply st) tbl @ [AddMeta ''cdc'' tbl mut]
                         else GetZero (toApply st) t)"
    by auto
  have "trace w' = trace w @ []
     \<and> (\<forall>t. handed t [] @ GetZero (toApply st') t
             = GetZero (toApply st) t @ (if t = tbl then [AddMeta ''cdc'' tbl mut] else []))
     \<and> (\<forall>t. GetZero (toApply st') t \<noteq> [] \<longrightarrow> t \<in> set (concat (Order r)))"
    using w b known tbl by (simp add: handed_Nil)
  then show ?thesis by blast
next
  case True
  with callback_buffers [OF run] obtain fr where
    f0: "flush D (SourceName D (target r)) (Order r) cursor (rs st) (toApply st) False w = (fr, w')"
    and c0: "case fr of
                   Inl e \<Rightarrow> Inr st' = (Inl e :: error + loop_state)
                 | Inr s' \<Rightarrow> \<exists>st''. Inr st' = (Inr st'' :: error + loop_state) \<and> rs st'' = s'
                      \<and> (\<forall>t. GetZero (toApply st'') t = (if t = tbl then [AddMeta ''cdc'' tbl mut] else []))"
    by auto
  from c0 obtain s' where fr: "fr = Inr s'" by (cases fr) auto
  from c0 fr have b: "\<And>t. GetZero (toApply st') t = (if t = tbl then [AddMeta ''cdc'' tbl mut] else [])"
    by auto
  note f = f0 [unfolded fr]
  from flush_payload [OF f] obtain tr where tr: "trace w' = trace w @ tr"
    by (auto simp: ext_def)
  have h: "handed t tr = GetZero (toApply st) t" for t
    using flush_handed [OF f tr d, of t] known [of t]
    by (cases "GetZero (toApply st) t = []") auto
  have "trace w' = trace w @ tr
     \<and> (\<forall>t. handed t tr @ GetZero (toApply st') t
             = GetZero (toApply st) t @ (if t = tbl then [AddMeta ''cdc'' tbl mut] else []))
     \<and> (\<forall>t. GetZero (toApply st') t \<noteq> [] \<longrightarrow> t \<in> set (concat (Order r)))"
    using tr h b tbl by simp
  then show ?thesis by blast
qed

lemma delivered_Nil: "delivered t [] = []"
  by (simp add: delivered_def)

lemma delivered_Cons:
  "delivered t ((off, tbl, mut) # items)
     = (if t = tbl then [AddMeta ''cdc'' tbl mut] else []) @ delivered t items"
  by (simp add: delivered_def)

lemma SelectMany_handed:
  assumes "SelectMany (callback D r) cursor items sm_err st w = (Inr st', w')"
    and "distinct (concat (Order r))"
    and "\<And>t. GetZero (toApply st) t \<noteq> [] \<Longrightarrow> t \<in> set (concat (Order r))"
    and "\<And>it. it \<in> set items \<Longrightarrow> fst (snd it) \<in> set (concat (Order r))"
  shows "\<exists>tr. trace w' = trace w @ tr
     \<and> (\<forall>t. handed t tr @ GetZero (toApply st') t = GetZero (toApply st) t @ delivered t items)
     \<and> (\<forall>t. GetZero (toApply st') t \<noteq> [] \<longrightarrow> t \<in> set (concat (Order r)))"
  using assms(1,3,4)
proof (induction items arbitrary: st w)
  case Nil
  then have "st' = st" "w' = w" by (auto split: option.splits)
  then have "trace w' = trace w @ []
     \<and> (\<forall>t. handed t [] @ GetZero (toApply st') t = GetZero (toApply st) t @ delivered t [])
     \<and> (\<forall>t. GetZero (toApply st') t \<noteq> [] \<longrightarrow> t \<in> set (concat (Order r)))"
    using Nil.prems(2) by (simp add: handed_Nil delivered_Nil)
  then show ?case by blast
next
  case (Cons it items)
  obtain off tbl mut where it: "it = (off, tbl, mut)" by (cases it) auto
  obtain cr w1 where c: "callback D r (at_offsets cursor off) tbl mut st w = (cr, w1)"
    by (cases "callback D r (at_offsets cursor off) tbl mut st w")
  from Cons.prems(1) it c obtain st1 where cr: "cr = Inr st1"
    and rest: "SelectMany (callback D r) cursor items sm_err st1 w1 = (Inr st', w')"
    by (cases cr) auto
  have tbl: "tbl \<in> set (concat (Order r))" using Cons.prems(3) [of it] it by simp
  from callback_handed [OF c [unfolded cr] assms(2) Cons.prems(2) tbl]
  obtain tr1 where tr1: "trace w1 = trace w @ tr1"
    and h1: "\<And>t. handed t tr1 @ GetZero (toApply st1) t
             = GetZero (toApply st) t @ (if t = tbl then [AddMeta ''cdc'' tbl mut] else [])"
    and k1: "\<And>t. GetZero (toApply st1) t \<noteq> [] \<Longrightarrow> t \<in> set (concat (Order r))"
    by blast
  have items: "\<And>it. it \<in> set items \<Longrightarrow> fst (snd it) \<in> set (concat (Order r))"
    using Cons.prems(3) by simp
  from Cons.IH [OF rest k1 items]
  obtain tr2 where tr2: "trace w' = trace w1 @ tr2"
    and h2: "\<And>t. handed t tr2 @ GetZero (toApply st') t = GetZero (toApply st1) t @ delivered t items"
    and k2: "\<forall>t. GetZero (toApply st') t \<noteq> [] \<longrightarrow> t \<in> set (concat (Order r))"
    by blast
  have h: "handed t (tr1 @ tr2) @ GetZero (toApply st') t = GetZero (toApply st) t @ delivered t (it # items)"
    for t
  proof -
    have "handed t (tr1 @ tr2) @ GetZero (toApply st') t
        = handed t tr1 @ (handed t tr2 @ GetZero (toApply st') t)"
      by (simp add: handed_append)
    also have "\<dots> = (handed t tr1 @ GetZero (toApply st1) t) @ delivered t items"
      by (simp add: h2)
    also have "\<dots> = GetZero (toApply st) t @ delivered t (it # items)"
      unfolding h1 it delivered_Cons by simp
    finally show ?thesis .
  qed
  have "trace w' = trace w @ (tr1 @ tr2)" using tr1 tr2 by simp
  with h k2 show ?case by blast
qed

lemma process_handed:
  assumes run: "process D r items sm_err s0 w = (None, w')"
    and d: "distinct (concat (Order r))"
    and items: "\<And>it. it \<in> set items \<Longrightarrow> fst (snd it) \<in> set (concat (Order r))"
  shows "\<exists>tr. trace w' = trace w @ tr \<and> (\<forall>t. handed t tr = delivered t items)"
proof -
  let ?cursor = "\<lparr>Start = CommittedTime s0, End = ProposedTime s0, Targets = Order r,
                        Limit = SelectBatchSize (cfg r), cBackfill = Backfill s0,
                        cOffsetKey = OffsetKey s0, cOffsetTable = OffsetTable s0,
                        cOffsetTime = OffsetTime s0\<rparr>"
  let ?st0 = "\<lparr>epoch = hlc_Zero, flushCounter = 0, toApply = [], total = 0, rs = s0\<rparr>"
  let ?c = "if items = [] then ?cursor else at_offsets ?cursor (fst (last items))"
  from run have ne: "length (Order r) \<noteq> 0" by (auto simp: process_def split: if_splits)
  obtain sr w1 where sm: "SelectMany (callback D r) ?cursor items sm_err ?st0 w = (sr, w1)"
    by (cases "SelectMany (callback D r) ?cursor items sm_err ?st0 w")
  from run ne sm obtain st where sr: "sr = Inr st" by (cases sr) (auto simp: process_def Let_def)
  obtain fr w2 where f: "flush D (SourceName D (target r)) (Order r) ?c (rs st) (toApply st) True w1 = (fr, w2)"
    by (cases "flush D (SourceName D (target r)) (Order r) ?c (rs st) (toApply st) True w1")
  from run ne sm sr f obtain s' where fr: "fr = Inr s'" and w': "w' = w2"
    by (cases fr) (auto simp: process_def Let_def)
  have k0: "\<And>t. GetZero (toApply ?st0) t \<noteq> [] \<Longrightarrow> t \<in> set (concat (Order r))"
    by (simp add: GetZero_def)
  from SelectMany_handed [OF sm [unfolded sr] d k0 items]
  obtain tr1 where tr1: "trace w1 = trace w @ tr1"
    and h1: "\<And>t. handed t tr1 @ GetZero (toApply st) t = GetZero (toApply ?st0) t @ delivered t items"
    and k1: "\<And>t. GetZero (toApply st) t \<noteq> [] \<Longrightarrow> t \<in> set (concat (Order r))"
    by blast
  from flush_payload [OF f] obtain tr2 where tr2: "trace w2 = trace w1 @ tr2"
    by (auto simp: ext_def)
  have h2: "handed t tr2 = GetZero (toApply st) t" for t
    using flush_handed [OF f [unfolded fr] tr2 d, of t] k1 [of t]
    by (cases "GetZero (toApply st) t = []") auto
  have "handed t (tr1 @ tr2) = delivered t items" for t
    using h1 [of t] h2 [of t] by (simp add: handed_append GetZero_def)
  moreover have "trace w' = trace w @ (tr1 @ tr2)" using tr1 tr2 w' by simp
  ultimately show ?thesis by blast
qed

text \<open>
  C4. In the default mode (no backfill, no flush at every timestamp), take any mutation
  that the stager delivers in a run of \<open>process\<close>, and the state that the callbacks for the
  mutations before it have left. In that state the counter is the number of mutations in
  the buffer, which are the mutations buffered since the last flush, and the epoch is the
  time of the mutation delivered and buffered last (the zero time before the first).
  Exactly if that number is at least \<open>IdealFlushBatchSize\<close> and the time of the mutation is
  strictly after the epoch, the callback first makes an interim flush of that buffer; when
  the flush fails the callback returns its error, and otherwise the buffer afterwards
  holds the mutation alone. Without a flush nothing is called and the mutation is added
  at the end of the buffer of its table.

  Hence, when the stager delivers the mutations in the order of their times, any two
  \<open>OnData\<close> calls of a run of \<open>process\<close> that lie in different flushes (an \<open>OnBegin\<close> is
  between them) carry mutations of strictly increasing times: no two mutations of one time
  are in different flushes. And when \<open>process\<close> returns without error, with the tables of
  the delivered mutations among those of the watcher's order and no table twice in that
  order, the mutations handed to \<open>OnData\<close> for a table are exactly the mutations delivered
  for it, each once and in the order of delivery.
\<close>

theorem default_mode_flush:
  assumes "\<not> FlushEveryTimestamp (cfg r)"
  shows "(\<not> Backfill (rs st) \<longrightarrow> callback D r cursor tbl mut st w = (res1, w1) \<longrightarrow>
            (trace w1 \<noteq> trace w)
              = (IdealFlushBatchSize (cfg r) \<le> flushCounter st \<and> 0 < hlc_Compare (Time mut) (epoch st))
            \<and> (\<forall>st'. res1 = Inr st' \<longrightarrow>
                  flushCounter st' = (if trace w1 \<noteq> trace w then 0 else flushCounter st) + 1
                  \<and> epoch st' = Time mut))
       \<and> (\<not> Backfill s0 \<longrightarrow> sorted (map item_time items) \<longrightarrow>
            process D r items sm_err s0 w = (res, w') \<longrightarrow>
            trace w' = trace w @ a @ (OnData src1 t1 ms1, o1) # b @ (OnBegin, ob) # c
                          @ (OnData src2 t2 ms2, o2) # d \<longrightarrow>
            m1 \<in> set ms1 \<longrightarrow> m2 \<in> set ms2 \<longrightarrow>
            hlc_tuple (Time m1) < hlc_tuple (Time m2))
       \<and> (\<not> Backfill s0 \<longrightarrow>
            SelectMany (callback D r) cur before sm_err
                \<lparr>epoch = hlc_Zero, flushCounter = 0, toApply = [], total = 0, rs = s0\<rparr> wa
              = (Inr sa, wb) \<longrightarrow>
            callback D r cur' tb m sa wb = (res2, wc) \<longrightarrow>
            flushCounter sa = int (buffer_count (toApply sa))
            \<and> distinct (map fst (toApply sa))
            \<and> epoch sa = (if before = [] then hlc_Zero else Time (snd (snd (last before))))
            \<and> (if IdealFlushBatchSize (cfg r) \<le> int (buffer_count (toApply sa))
                    \<and> 0 < hlc_Compare (Time m) (epoch sa)
                then (\<exists>fr. flush D (SourceName D (target r)) (Order r) cur' (rs sa) (toApply sa) False wb
                              = (fr, wc)
                       \<and> (case fr of
                             Inl e \<Rightarrow> res2 = Inl e
                           | Inr s' \<Rightarrow> \<exists>sb. res2 = Inr sb \<and> rs sb = s'
                               \<and> (\<forall>t. GetZero (toApply sb) t
                                        = (if t = tb then [AddMeta ''cdc'' tb m] else []))))
                else wc = wb
                     \<and> (\<exists>sb. res2 = Inr sb \<and> rs sb = rs sa
                           \<and> (\<forall>t. GetZero (toApply sb) t
                                    = (if t = tb then GetZero (toApply sa) tb @ [AddMeta ''cdc'' tb m]
                                       else GetZero (toApply sa) t)))))
       \<and> (distinct (concat (Order r)) \<longrightarrow>
            (\<forall>it\<in>set items. fst (snd it) \<in> set (concat (Order r))) \<longrightarrow>
            process D r items sm_err s0 w = (None, wd) \<longrightarrow>
            (\<exists>tr. trace wd = trace w @ tr \<and> (\<forall>t. handed t tr = delivered t items)))"
proof (intro conjI impI)
  assume mode: "\<not> Backfill (rs st)" and run: "callback D r cursor tbl mut st w = (res1, w1)"
  have nf: "needsFlush (cfg r) st mut
      = (IdealFlushBatchSize (cfg r) \<le> flushCounter st \<and> 0 < hlc_Compare (Time mut) (epoch st))"
    using mode assms by (simp add: needsFlush_def)
  note C = callback_trace [OF run]
  show "(trace w1 \<noteq> trace w)
      = (IdealFlushBatchSize (cfg r) \<le> flushCounter st \<and> 0 < hlc_Compare (Time mut) (epoch st))"
    using C(1) nf by simp
  show "\<forall>st'. res1 = Inr st' \<longrightarrow>
       flushCounter st' = (if trace w1 \<noteq> trace w then 0 else flushCounter st) + 1
       \<and> epoch st' = Time mut"
    using C by simp
next
  assume mode: "\<not> Backfill s0" and ordered: "sorted (map item_time items)"
    and run: "process D r items sm_err s0 w = (res, w')"
    and tr: "trace w' = trace w @ a @ (OnData src1 t1 ms1, o1) # b @ (OnBegin, ob) # c
                          @ (OnData src2 t2 ms2, o2) # d"
    and m: "m1 \<in> set ms1" "m2 \<in> set ms2"
  from process_apart [OF run mode assms ordered] obtain t where t: "ext w w' t" "apart t" by blast
  from t(1) tr have "t = a @ (OnData src1 t1 ms1, o1) # b @ (OnBegin, ob) # c @ (OnData src2 t2 ms2, o2) # d"
    by (simp add: ext_def)
  from apart_split [OF t(2) this m] show "hlc_tuple (Time m1) < hlc_tuple (Time m2)" .
next
  let ?init = "\<lparr>epoch = hlc_Zero, flushCounter = 0, toApply = [], total = 0, rs = s0\<rparr>"
  assume mode: "\<not> Backfill s0"
    and sm: "SelectMany (callback D r) cur before sm_err ?init wa = (Inr sa, wb)"
    and run: "callback D r cur' tb m sa wb = (res2, wc)"
  have "distinct (map fst (toApply ?init))" "flushCounter ?init = int (buffer_count (toApply ?init))"
    by (simp_all add: buffer_count_def)
  from SelectMany_counts [OF sm this]
  have inv: "distinct (map fst (toApply sa))" "flushCounter sa = int (buffer_count (toApply sa))"
    "epoch sa = (if before = [] then hlc_Zero else Time (snd (snd (last before))))"
    "\<not> Backfill (rs sa)"
    using mode by simp_all
  have nf: "needsFlush (cfg r) sa m
      = (IdealFlushBatchSize (cfg r) \<le> int (buffer_count (toApply sa))
         \<and> 0 < hlc_Compare (Time m) (epoch sa))"
    using inv(2,4) assms by (simp add: needsFlush_def)
  show "flushCounter sa = int (buffer_count (toApply sa))" by (rule inv(2))
  show "distinct (map fst (toApply sa))" by (rule inv(1))
  show "epoch sa = (if before = [] then hlc_Zero else Time (snd (snd (last before))))" by (rule inv(3))
  show "if IdealFlushBatchSize (cfg r) \<le> int (buffer_count (toApply sa))
                    \<and> 0 < hlc_Compare (Time m) (epoch sa)
                then (\<exists>fr. flush D (SourceName D (target r)) (Order r) cur' (rs sa) (toApply sa) False wb
                              = (fr, wc)
                       \<and> (case fr of
                             Inl e \<Rightarrow> res2 = Inl e
                           | Inr s' \<Rightarrow> \<exists>sb. res2 = Inr sb \<and> rs sb = s'
                               \<and> (\<forall>t. GetZero (toApply sb) t
                                        = (if t = tb then [AddMeta ''cdc'' tb m] else []))))
                else wc = wb
                     \<and> (\<exists>sb. res2 = Inr sb \<and> rs sb = rs sa
                           \<and> (\<forall>t. GetZero (toApply sb) t
                                    = (if t = tb then GetZero (toApply sa) tb @ [AddMeta ''cdc'' tb m]
                                       else GetZero (toApply sa) t)))"
    using callback_buffers [OF run] unfolding nf .
next
  assume d: "distinct (concat (Order r))"
    and items: "\<forall>it\<in>set items. fst (snd it) \<in> set (concat (Order r))"
    and run: "process D r items sm_err s0 w = (None, wd)"
  from items have "\<And>it. it \<in> set items \<Longrightarrow> fst (snd it) \<in> set (concat (Order r))" by blast
  from process_handed [OF run d this]
  show "\<exists>tr. trace wd = trace w @ tr \<and> (\<forall>t. handed t tr = delivered t items)" .
qed

theorem default_mode_flush_witness:
  "trace (snd (callback ex_deps ex_resolver
       \<lparr>Start = hlc_Zero, End = hlc_New 20 0, Targets = [[''p''], [''c'']], Limit = 10,
          cBackfill = False, cOffsetKey = ''d'', cOffsetTable = ''c'', cOffsetTime = hlc_New 2 0\<rparr>
       ''c'' (ex_mut ''d'' 2)
       \<lparr>epoch = hlc_New 1 0, flushCounter = 2,
          toApply = [(''p'', [ex_mut ''b'' 1]), (''c'', [ex_mut ''a'' 1])], total = 0, rs = ex_stamp\<rparr>
       (ex_world []))) \<noteq> trace (ex_world [])
   \<and> hlc_tuple (Time (AddMeta ''cdc'' ''p'' (ex_mut ''b'' 1)))
       < hlc_tuple (Time (AddMeta ''cdc'' ''c'' (ex_mut ''d'' 2)))
   \<and> fst (SelectMany (callback ex_deps ex_resolver)
        \<lparr>Start = hlc_Zero, End = hlc_New 20 0, Targets = [[''p''], [''c'']], Limit = 10,
          cBackfill = False, cOffsetKey = [], cOffsetTable = [], cOffsetTime = hlc_Zero\<rparr>
        [ex_item ''c'' ''a'' 1, ex_item ''p'' ''b'' 1] None
        \<lparr>epoch = hlc_Zero, flushCounter = 0, toApply = [], total = 0, rs = ex_stamp\<rparr> (ex_world []))
       = Inr \<lparr>epoch = hlc_New 1 0, flushCounter = 2,
              toApply = [(''p'', [AddMeta ''cdc'' ''p'' (ex_mut ''b'' 1)]),
                         (''c'', [AddMeta ''cdc'' ''c'' (ex_mut ''a'' 1)])],
              total = 0, rs = ex_stamp\<rparr>
   \<and> buffer_count [(''p'', [AddMeta ''cdc'' ''p'' (ex_mut ''b'' 1)]),
                    (''c'', [AddMeta ''cdc'' ''c'' (ex_mut ''a'' 1)])] = 2
   \<and> (\<exists>sb. fst (callback ex_deps ex_resolver
          \<lparr>Start = hlc_Zero, End = hlc_New 20 0, Targets = [[''p''], [''c'']], Limit = 10,
            cBackfill = False, cOffsetKey = ''d'', cOffsetTable = ''c'', cOffsetTime = hlc_New 2 0\<rparr>
          ''c'' (ex_mut ''d'' 2)
          \<lparr>epoch = hlc_New 1 0, flushCounter = 2,
            toApply = [(''p'', [AddMeta ''cdc'' ''p'' (ex_mut ''b'' 1)]),
                       (''c'', [AddMeta ''cdc'' ''c'' (ex_mut ''a'' 1)])],
            total = 0, rs = ex_stamp\<rparr> (ex_world [])) = Inr sb
        \<and> GetZero (toApply sb) ''c'' = [AddMeta ''cdc'' ''c'' (ex_mut ''d'' 2)]
        \<and> GetZero (toApply sb) ''p'' = [])
   \<and> handed ''c'' (trace (snd (process ex_deps ex_resolver
          [ex_item ''c'' ''a'' 1, ex_item ''p'' ''b'' 1, ex_item ''c'' ''d'' 2] None ex_stamp (ex_world []))))
       = [AddMeta ''cdc'' ''c'' (ex_mut ''a'' 1), AddMeta ''cdc'' ''c'' (ex_mut ''d'' 2)]
   \<and> handed ''p'' (trace (snd (process ex_deps ex_resolver
          [ex_item ''c'' ''a'' 1, ex_item ''p'' ''b'' 1, ex_item ''c'' ''d'' 2] None ex_stamp (ex_world []))))
       = [AddMeta ''cdc'' ''p'' (ex_mut ''b'' 1)]"
proof -
  let ?cur = "\<lparr>Start = hlc_Zero, End = hlc_New 20 0, Targets = [[''p''], [''c'']], Limit = 10,
          cBackfill = False, cOffsetKey = ''d'', cOffsetTable = ''c'', cOffsetTime = hlc_New 2 0\<rparr>"
  let ?start = "\<lparr>Start = hlc_Zero, End = hlc_New 20 0, Targets = [[''p''], [''c'']], Limit = 10,
          cBackfill = False, cOffsetKey = [], cOffsetTable = [], cOffsetTime = hlc_Zero\<rparr>"
  let ?st = "\<lparr>epoch = hlc_New 1 0, flushCounter = 2,
          toApply = [(''p'', [ex_mut ''b'' 1]), (''c'', [ex_mut ''a'' 1])], total = 0, rs = ex_stamp\<rparr>"
  let ?items = "[ex_item ''c'' ''a'' 1, ex_item ''p'' ''b'' 1, ex_item ''c'' ''d'' 2]"
  let ?before = "[ex_item ''c'' ''a'' 1, ex_item ''p'' ''b'' 1]"
  let ?p = "ex_stamp\<lparr>OffsetKey := ''d'', OffsetTable := ''c'', OffsetTime := hlc_New 2 0\<rparr>"
  let ?q = "?p\<lparr>CommittedTime := hlc_New 20 0, ProposedTime := hlc_Zero\<rparr>"
  let ?mb = "AddMeta ''cdc'' ''p'' (ex_mut ''b'' 1)"
  let ?ma = "AddMeta ''cdc'' ''c'' (ex_mut ''a'' 1)"
  let ?md = "AddMeta ''cdc'' ''c'' (ex_mut ''d'' 2)"
  let ?init = "\<lparr>epoch = hlc_Zero, flushCounter = 0, toApply = [], total = 0, rs = ex_stamp\<rparr>"
  let ?sa = "\<lparr>epoch = hlc_New 1 0, flushCounter = 2,
              toApply = [(''p'', [?mb]), (''c'', [?ma])], total = 0, rs = ex_stamp\<rparr>"
  let ?a = "[(OnBegin, None :: error option)]"
  let ?b = "[(OnData ''s'' ''c'' [?ma], None), (OnCommit, None), (SetConsistentPoint ?p, None),
             (OnRollback, None)]"
  let ?d = "[(OnCommit, None), (Record (hlc_New 20 0), None), (SetConsistentPoint ?q, None),
             (OnRollback, None)]"
  let ?w' = "\<lparr>trace = ?a @ (OnData ''s'' ''p'' [?mb], None) # ?b @ (OnBegin, None) # []
                     @ (OnData ''s'' ''c'' [?md], None) # ?d,
              point = ?q, sched = []\<rparr>"
  have nf: "\<not> FlushEveryTimestamp (cfg ex_resolver)" by (simp add: ex_resolver_def ex_cfg_def)
  note T = default_mode_flush [of ex_resolver, OF nf]
  text \<open>The trigger, at a state with two buffered mutations.\<close>
  have mode1: "\<not> Backfill (rs ?st)" by (simp add: ex_stamp_def)
  obtain res1 w1 where cb: "callback ex_deps ex_resolver ?cur ''c'' (ex_mut ''d'' 2) ?st (ex_world []) = (res1, w1)"
    by (cases "callback ex_deps ex_resolver ?cur ''c'' (ex_mut ''d'' 2) ?st (ex_world [])")
  from T [THEN conjunct1, rule_format, OF mode1 cb]
  have "(trace w1 \<noteq> trace (ex_world []))
      = (IdealFlushBatchSize (cfg ex_resolver) \<le> flushCounter ?st
         \<and> 0 < hlc_Compare (Time (ex_mut ''d'' 2)) (epoch ?st))" by simp
  moreover have "IdealFlushBatchSize (cfg ex_resolver) \<le> flushCounter ?st
         \<and> 0 < hlc_Compare (Time (ex_mut ''d'' 2)) (epoch ?st)"
    by (simp add: ex_resolver_def ex_cfg_def ex_mut_def hlc_Compare_def hlc_New_def)
  ultimately have one: "trace w1 \<noteq> trace (ex_world [])" by blast
  text \<open>A run with two flushes.\<close>
  have mode2: "\<not> Backfill ex_stamp" by (simp add: ex_stamp_def)
  have ordered: "sorted (map item_time ?items)"
    by (simp add: item_time_def ex_item_def ex_mut_def hlc_tuple_def hlc_New_def)
  have run: "process ex_deps ex_resolver ?items None ex_stamp (ex_world []) = (None, ?w')"
    by (simp add: process_def callback_def flush_def flush_body_def invoke_def needsFlush_def
        ex_deps_def ex_resolver_def ex_cfg_def ex_item_def ex_world_def ex_stamp_def ex_mut_def
        at_offsets_def GetZero_def Put_def reset_def AddMeta_def NewProgress_def
        hlc_Compare_def hlc_New_def hlc_Zero_def Let_def)
  have tr: "trace ?w' = trace (ex_world []) @ ?a @ (OnData ''s'' ''p'' [?mb], None) # ?b @ (OnBegin, None) # []
                     @ (OnData ''s'' ''c'' [?md], None) # ?d"
    by (simp add: ex_world_def)
  have m: "?mb \<in> set [?mb]" "?md \<in> set [?md]" by simp_all
  from T [THEN conjunct2, THEN conjunct1, rule_format, OF mode2 ordered run tr m]
  have two: "hlc_tuple (Time ?mb) < hlc_tuple (Time ?md)" .
  text \<open>The state before the third mutation, and the callback for it.\<close>
  have sm: "SelectMany (callback ex_deps ex_resolver) ?start ?before None ?init (ex_world [])
      = (Inr ?sa, ex_world [])"
    by (simp add: callback_def needsFlush_def
        ex_resolver_def ex_cfg_def ex_item_def ex_world_def ex_stamp_def ex_mut_def
        at_offsets_def GetZero_def Put_def AddMeta_def
        hlc_Compare_def hlc_New_def hlc_Zero_def Let_def)
  obtain res2 wc where cb2: "callback ex_deps ex_resolver ?cur ''c'' (ex_mut ''d'' 2) ?sa (ex_world []) = (res2, wc)"
    by (cases "callback ex_deps ex_resolver ?cur ''c'' (ex_mut ''d'' 2) ?sa (ex_world [])")
  note A = T [THEN conjunct2, THEN conjunct2, THEN conjunct1, rule_format, OF mode2 sm cb2]
  from A have "int (buffer_count (toApply ?sa)) = flushCounter ?sa" by simp
  then have three: "buffer_count [(''p'', [?mb]), (''c'', [?ma])] = 2" by simp
  have cond: "IdealFlushBatchSize (cfg ex_resolver) \<le> int (buffer_count (toApply ?sa))
                    \<and> 0 < hlc_Compare (Time (ex_mut ''d'' 2)) (epoch ?sa)"
    using three by (simp add: ex_resolver_def ex_cfg_def ex_mut_def hlc_Compare_def hlc_New_def)
  have fl: "flush ex_deps (SourceName ex_deps (target ex_resolver)) (Order ex_resolver) ?cur (rs ?sa)
        (toApply ?sa) False (ex_world []) = (Inr ?p,
          \<lparr>trace = [(OnBegin, None), (OnData ''s'' ''p'' [?mb], None), (OnData ''s'' ''c'' [?ma], None),
                    (OnCommit, None), (SetConsistentPoint ?p, None), (OnRollback, None)],
            point = ?p, sched = []\<rparr>)"
    by (simp add: flush_def flush_body_def invoke_def ex_deps_def ex_resolver_def ex_world_def
        ex_stamp_def GetZero_def NewProgress_def Let_def)
  from A cond have "\<exists>fr. flush ex_deps (SourceName ex_deps (target ex_resolver)) (Order ex_resolver) ?cur
          (rs ?sa) (toApply ?sa) False (ex_world []) = (fr, wc)
       \<and> (case fr of
             Inl e \<Rightarrow> res2 = Inl e
           | Inr s' \<Rightarrow> \<exists>sb. res2 = Inr sb \<and> rs sb = s'
               \<and> (\<forall>t. GetZero (toApply sb) t = (if t = ''c'' then [?md] else [])))"
    by (simp only: if_True simp_thms)
  then have "\<exists>sb. res2 = Inr sb \<and> (\<forall>t. GetZero (toApply sb) t = (if t = ''c'' then [?md] else []))"
    unfolding fl by auto
  then obtain sb where sb: "res2 = Inr sb" "GetZero (toApply sb) ''c'' = [?md]" "GetZero (toApply sb) ''p'' = []"
    by auto
  text \<open>Everything delivered is handed over.\<close>
  have dist: "distinct (concat (Order ex_resolver))" by (simp add: ex_resolver_def)
  have tabs: "\<forall>it\<in>set ?items. fst (snd it) \<in> set (concat (Order ex_resolver))"
    by (simp add: ex_resolver_def ex_item_def)
  from T [THEN conjunct2, THEN conjunct2, THEN conjunct2, THEN mp, OF dist, THEN mp, OF tabs, THEN mp, OF run]
  obtain t where t: "trace ?w' = trace (ex_world []) @ t" "\<And>x. handed x t = delivered x ?items"
    by blast
  from t(1) have "t = trace ?w'" by (simp add: ex_world_def)
  with t(2) have four: "handed ''c'' (trace ?w') = delivered ''c'' ?items"
    "handed ''p'' (trace ?w') = delivered ''p'' ?items" by simp_all
  have del: "delivered ''c'' ?items = [?ma, ?md]" "delivered ''p'' ?items = [?mb]"
    by (simp_all add: delivered_def ex_item_def)
  have c1: "trace (snd (callback ex_deps ex_resolver ?cur ''c'' (ex_mut ''d'' 2) ?st (ex_world [])))
      \<noteq> trace (ex_world [])"
    using one by (simp add: cb)
  have c3: "fst (SelectMany (callback ex_deps ex_resolver) ?start ?before None ?init (ex_world [])) = Inr ?sa"
    by (simp add: sm)
  have c5: "\<exists>sb. fst (callback ex_deps ex_resolver ?cur ''c'' (ex_mut ''d'' 2) ?sa (ex_world [])) = Inr sb
        \<and> GetZero (toApply sb) ''c'' = [?md] \<and> GetZero (toApply sb) ''p'' = []"
    using sb by (simp add: cb2)
  have c6: "handed ''c'' (trace (snd (process ex_deps ex_resolver ?items None ex_stamp (ex_world []))))
      = [?ma, ?md]"
    using four(1) by (simp only: run snd_conv del)
  have c7: "handed ''p'' (trace (snd (process ex_deps ex_resolver ?items None ex_stamp (ex_world []))))
      = [?mb]"
    using four(2) by (simp only: run snd_conv del)
  show ?thesis by (intro conjI c1 two c3 three c5 c6 c7)
qed

subsection \<open>Resuming a proposal\<close>

text \<open>
  C7. If the stamp that \<open>GetConsistentPoint\<close> returns at the start has a proposed time other
  than zero, the first turn of the reader makes no query of the resolved store and offers
  exactly that stamp on the channel: when the send is taken, the first stamp emitted is
  that stamp, unchanged, and nothing but the setting of \<open>retirements\<close> comes before it;
  when instead the loop is stopping or the context is done, the reader returns without
  having emitted or queried anything.
\<close>

theorem readInto_resumes_proposed:
  assumes "ProposedTime cp \<noteq> hlc_Zero"
  shows "\<exists>evs ret. readInto D r backfill cp (tk # tks)
      = ((if CommittedTime cp \<noteq> hlc_Zero then [SetRetirements (CommittedTime cp)] else [])
           @ (case on_send tk of Sent \<Rightarrow> Emit cp # evs | _ \<Rightarrow> []), ret)
    \<and> (on_send tk = SendStopping \<longrightarrow> ret = Returned None)
    \<and> (on_send tk = SendCtxDone \<longrightarrow> ret = Returned (Some ctxErr))"
proof (cases "on_send tk")
  case Sent
  obtain ev3 nxt where wt: "reader_wait None tk = (ev3, nxt)" by (cases "reader_wait None tk")
  have turn: "reader_turn D r backfill (Some cp) tk = ([Emit cp] @ ev3, nxt)"
    using assms Sent wt by (simp add: reader_turn_def reader_propose_def reader_send_def)
  show ?thesis
  proof (cases nxt)
    case (Inl ret)
    with turn Sent show ?thesis by (simp add: readInto_def)
  next
    case (Inr resume')
    obtain evs ret where "readInto_loop D r backfill resume' tks = (evs, ret)"
      by (cases "readInto_loop D r backfill resume' tks")
    with Inr turn Sent show ?thesis by (simp add: readInto_def)
  qed
next
  case SendStopping
  then show ?thesis
    using assms by (simp add: readInto_def reader_turn_def reader_propose_def reader_send_def)
next
  case SendCtxDone
  then show ?thesis
    using assms by (simp add: readInto_def reader_turn_def reader_propose_def reader_send_def)
qed

theorem readInto_resumes_proposed_witness:
  "readInto ex_deps ex_resolver False (ex_stamp\<lparr>CommittedTime := hlc_New 5 0\<rparr>)
       [ex_tick Sent WaitStopping]
     = ([SetRetirements (hlc_New 5 0), Emit (ex_stamp\<lparr>CommittedTime := hlc_New 5 0\<rparr>)], Returned None)"
proof -
  have p: "ProposedTime (ex_stamp\<lparr>CommittedTime := hlc_New 5 0\<rparr>) \<noteq> hlc_Zero"
    by (simp add: ex_stamp_def hlc_New_def hlc_Zero_def)
  from readInto_resumes_proposed [OF p, of ex_deps ex_resolver False "ex_tick Sent WaitStopping" "[]"]
  show ?thesis
    by (simp add: readInto_def reader_turn_def reader_propose_def reader_send_def reader_wait_def
        ex_tick_def ex_stamp_def hlc_New_def hlc_Zero_def)
qed

subsection \<open>The retire loop and the offset\<close>

text \<open>
  For any positive offset and any committed time, the second of two tables is retired
  with the offset taken off twice.
\<close>

lemma retire_range_two_tables:
  "0 < off \<Longrightarrow>
   retire_calls off [(a, Ok, Ok), (b, Ok, Ok)] committed
     = [(a, hlc_New (int64_sub (Nanos committed) off) (Logical committed)),
        (b, hlc_New (int64_sub (int64_sub (Nanos committed) off) off) (Logical committed))]"
  by (simp add: retire_calls_def hlc_New_def Let_def)

text \<open>
  C2. With a positive \<open>RetireOffset\<close>, the tables of one iteration of the retire loop do
  not all get the bound "committed time less the offset". With an offset of five seconds,
  a committed time of one hundred seconds and two tables whose calls all succeed, the
  first table is retired up to ninety-five seconds and the second up to ninety: the
  closure assigns the reduced time to the variable \<open>next\<close>, which it shares with the calls
  for the tables that follow, so the offset is taken off once more for every table.
\<close>

theorem retire_offset_accumulates:
  "retire_calls 5000000000 [(''a'', Ok, Ok), (''b'', Ok, Ok)] (hlc_New 100000000000 0)
     = [(''a'', hlc_New 95000000000 0), (''b'', hlc_New 90000000000 0)]"
  by (simp add: retire_calls_def hlc_New_def int64_sub_def Let_def)

end
